theory Spec2Isabelle
  imports Complex_Main "HOL-Library.Signed_Division"
begin

section \<open>Data model\<close>

text \<open>
  The program keeps one binary search tree of heap nodes and animates operations on
  it frame by frame. The source computes times, positions and opacity in C++
  \<^verbatim>\<open>float\<close>; the model idealises that arithmetic as exact rational arithmetic.
  Keys are C++ \<^verbatim>\<open>int\<close>; the tree algorithms only compare them, so they are modelled
  as unbounded integers (every 32-bit key is one of them).
\<close>

type_synonym float = rat

datatype Color = LIGHTGRAY | ORANGE | RED

text \<open>
  \<^verbatim>\<open>struct Node\<close>: the fields other than the two child pointers. A node owns its
  children and nothing else points into the tree structurally, so the heap of nodes
  reachable from \<^verbatim>\<open>root\<close> is the tree itself: \<open>Null\<close> is \<^verbatim>\<open>nullptr\<close>.
\<close>

record NodeData =
  n_value :: int
  n_x :: float
  n_y :: float
  n_tx :: float
  n_ty :: float
  n_alpha :: float
  n_color :: Color

datatype Tree = Null | Node (left: Tree) (dat: NodeData) (right: Tree)

text \<open>
  A \<^verbatim>\<open>Node*\<close> held outside the tree (the search cursor, the node being deleted, a
  traversal frame, an entry of a helper stack) is the path from the root to the node;
  \<open>None\<close> is \<^verbatim>\<open>nullptr\<close>. Dereferencing follows the path; a path that leaves the tree
  stands for a dangling pointer and dereferences to \<open>Null\<close>.
\<close>

datatype Dir = L | R

type_synonym ptr = "Dir list option"

fun node_at :: "Tree \<Rightarrow> Dir list \<Rightarrow> Tree" where
  "node_at t [] = t"
| "node_at Null (d # p) = Null"
| "node_at (Node l a r) (L # p) = node_at l p"
| "node_at (Node l a r) (R # p) = node_at r p"

text \<open>Writing fields of the node a pointer refers to: \<^verbatim>\<open>p->f = ...\<close>.\<close>

fun update_at :: "(NodeData \<Rightarrow> NodeData) \<Rightarrow> Dir list \<Rightarrow> Tree \<Rightarrow> Tree" where
  "update_at f p Null = Null"
| "update_at f [] (Node l a r) = Node l (f a) r"
| "update_at f (L # p) (Node l a r) = Node (update_at f p l) a r"
| "update_at f (R # p) (Node l a r) = Node l a (update_at f p r)"

text \<open>The pointer to the root and the child pointers \<^verbatim>\<open>n->left\<close>, \<^verbatim>\<open>n->right\<close>.\<close>

definition root_ptr :: "Tree \<Rightarrow> ptr" where
  "root_ptr t = (if t = Null then None else Some [])"

definition child_ptr :: "Tree \<Rightarrow> Dir list \<Rightarrow> Dir \<Rightarrow> ptr" where
  "child_ptr t p d = (if node_at t (p @ [d]) = Null then None else Some (p @ [d]))"

text \<open>
  Undefined behaviour of the C++ program is an error value of the model: dereferencing
  \<^verbatim>\<open>nullptr\<close>, dereferencing a pointer whose node is gone, writing past the end of a
  fixed array, writing through a reference into a \<^verbatim>\<open>std::vector\<close> that a \<^verbatim>\<open>push_back\<close>
  has reallocated, and signed overflow.
\<close>

datatype error = NullDeref | Dangling | StackOutOfBounds | DanglingReference | SignedOverflow

section \<open>Mutation engine\<close>

definition TREE_START_X :: int where "TREE_START_X = 350"
definition TREE_START_Y :: int where "TREE_START_Y = 80"

definition CreateNode :: "int \<Rightarrow> Tree" where
  "CreateNode v =
     Node Null \<lparr>n_value = v, n_x = of_int TREE_START_X, n_y = -100,
                n_tx = of_int TREE_START_X, n_ty = of_int TREE_START_Y,
                n_alpha = 1, n_color = LIGHTGRAY\<rparr> Null"

fun Insert :: "Tree \<Rightarrow> int \<Rightarrow> Tree" where
  "Insert Null v = CreateNode v"
| "Insert (Node l a r) v =
     (if v < n_value a then Node (Insert l v) a r
      else if v > n_value a then Node l a (Insert r v)
      else Node l a r)"

text \<open>\<^verbatim>\<open>MinNode\<close>: the loop \<^verbatim>\<open>while (r && r->left) r = r->left\<close>.\<close>

fun MinNode :: "Tree \<Rightarrow> Tree" where
  "MinNode Null = Null"
| "MinNode (Node l a r) = (if l \<noteq> Null then MinNode l else Node l a r)"

text \<open>
  \<^verbatim>\<open>DeleteNode\<close>. In the last branch \<^verbatim>\<open>t = MinNode(r->right)\<close> is dereferenced; it is
  reached only with a right child, where \<open>MinNode\<close> returns a node
  (lemma \<open>MinNode_not_Null\<close>).
\<close>

fun DeleteNode :: "Tree \<Rightarrow> int \<Rightarrow> Tree" where
  "DeleteNode Null v = Null"
| "DeleteNode (Node l a r) v =
     (if v < n_value a then Node (DeleteNode l v) a r
      else if v > n_value a then Node l a (DeleteNode r v)
      else if l = Null \<and> r = Null then Null
      else if l = Null then r
      else if r = Null then l
      else let t = MinNode r
           in Node l (a\<lparr>n_value := n_value (dat t)\<rparr>) (DeleteNode r (n_value (dat t))))"

text \<open>
  \<^verbatim>\<open>SetPositions\<close>: the layout pass. \<^verbatim>\<open>offset / 2\<close> is C++ integer division, which
  truncates.
\<close>

fun SetPositions :: "Tree \<Rightarrow> int \<Rightarrow> int \<Rightarrow> int \<Rightarrow> Tree" where
  "SetPositions Null x y offset = Null"
| "SetPositions (Node l a r) x y offset =
     Node (SetPositions l (x - offset) (y + 80) (offset sdiv 2))
          (a\<lparr>n_tx := of_int x, n_ty := of_int y\<rparr>)
          (SetPositions r (x + offset) (y + 80) (offset sdiv 2))"

section \<open>Global state\<close>

datatype Mode =
  IDLE | INSERTING | SEARCHING | DELETING | TRAVERSING_IN | TRAVERSING_PRE | TRAVERSING_POST

text \<open>
  \<^verbatim>\<open>struct TravFrame\<close>; in-order uses \<open>state\<close> as 0 = go left, 1 = visit, 2 = go right,
  3 = return.
\<close>

record TravFrame =
  node :: ptr
  state :: int

text \<open>
  The global variables of the program, under their names. \<open>moveTimer\<close> is the
  \<^verbatim>\<open>static\<close> local of \<^verbatim>\<open>UpdateSearch\<close>. \<open>travStack\<close> is the \<^verbatim>\<open>std::vector\<close> of frames
  with its last element (\<^verbatim>\<open>back()\<close>) first, and \<open>travCapacity\<close> is that vector's
  \<^verbatim>\<open>capacity()\<close>. \<open>visited\<close> is not a variable of the program: it records, in order,
  the nodes whose colour the traversal engine sets in a visit phase.
\<close>

record Globals =
  root :: Tree
  inputValue :: int
  current :: ptr
  found :: bool
  mode :: Mode
  algoSteps :: "string list"
  algoStepIndex :: int
  algoTimer :: float
  moveTimer :: float
  delNode :: ptr
  delFlashTimer :: float
  delFlashCount :: int
  travStack :: "TravFrame list"
  travCapacity :: nat
  travHighlight :: ptr
  edgeA :: ptr
  edgeB :: ptr
  travTimer :: float
  visited :: "Dir list list"

definition algoSpeed :: float where "algoSpeed = 0.5"

text \<open>
  The step broadcaster, repeated verbatim in every update function of the source:
  \<^verbatim>\<open>algoTimer += dt; if (algoTimer > algoSpeed && algoStepIndex < algoSteps.size() - 1)
  { algoStepIndex++; algoTimer = 0; }\<close>. The comparison is between an \<^verbatim>\<open>int\<close> and a
  \<^verbatim>\<open>size_t\<close>, so both sides are taken modulo \<open>2 ^ 64\<close>.
\<close>

definition advance_algo :: "float \<Rightarrow> Globals \<Rightarrow> Globals" where
  "advance_algo dt s =
     (let s1 = s\<lparr>algoTimer := algoTimer s + dt\<rparr>
      in if algoTimer s1 > algoSpeed \<and>
            algoStepIndex s1 mod 2 ^ 64 < (int (length (algoSteps s1)) - 1) mod 2 ^ 64
         then s1\<lparr>algoStepIndex := algoStepIndex s1 + 1, algoTimer := 0\<rparr>
         else s1)"

section \<open>Full-tree walks with a fixed helper stack\<close>

text \<open>
  \<^verbatim>\<open>AnimateNodes\<close> and \<^verbatim>\<open>ResetTreeColors\<close> run the same loop over a local array
  \<^verbatim>\<open>Node* stack[100]\<close> with an index \<^verbatim>\<open>top\<close>; they differ in what they write to the
  node they pop. The array is the list of its entries below \<^verbatim>\<open>top\<close>, topmost first;
  \<^verbatim>\<open>stack[top++] = q\<close> with \<^verbatim>\<open>top = 100\<close> writes past the array.
\<close>

definition STACK_CAPACITY :: nat where "STACK_CAPACITY = 100"

definition push_if :: "ptr \<Rightarrow> ptr list \<Rightarrow> error + ptr list" where
  "push_if q st =
     (case q of
        None \<Rightarrow> Inr st
      | Some c \<Rightarrow> if length st < STACK_CAPACITY then Inr (Some c # st) else Inl StackOutOfBounds)"

function walk_loop :: "(NodeData \<Rightarrow> NodeData) \<Rightarrow> Tree \<Rightarrow> ptr list \<Rightarrow> error + Tree" where
  "walk_loop f t [] = Inr t"
| "walk_loop f t (None # st) = Inl NullDeref"
| "walk_loop f t (Some p # st) =
     (if node_at t p = Null then Inl Dangling
      else let t1 = update_at f p t
           in case push_if (child_ptr t1 p L) st of
                Inl e \<Rightarrow> Inl e
              | Inr st1 \<Rightarrow>
                  (case push_if (child_ptr t1 p R) st1 of
                     Inl e \<Rightarrow> Inl e
                   | Inr st2 \<Rightarrow> walk_loop f t1 st2))"
  by pat_completeness auto
termination
proof -
  let ?w = "\<lambda>t q. case q of None \<Rightarrow> 0 | Some p \<Rightarrow> size (node_at t p)"
  have step: "node_at (Node l a r) (d # p) = (case d of L \<Rightarrow> node_at l p | R \<Rightarrow> node_at r p)"
    for l a r d p
    by (cases d) simp_all
  have shape: "size (node_at (update_at f p t) q) = size (node_at t q)" for f p t q
  proof (induction f p t arbitrary: q rule: update_at.induct)
    case (1 f p)
    then show ?case by simp
  next
    case (2 f l a r)
    then show ?case by (cases q) (simp_all add: step)
  next
    case (3 f p l a r)
    from 3 [of "[]"] 3 show ?case by (cases q) (simp_all add: step split: Dir.splits)
  next
    case (4 f p l a r)
    from 4 [of "[]"] 4 show ?case by (cases q) (simp_all add: step split: Dir.splits)
  qed
  have kids: "node_at t p \<noteq> Null \<Longrightarrow>
      size (node_at t (p @ [L])) + size (node_at t (p @ [R])) < size (node_at t p)" for t p
  proof (induction t p rule: node_at.induct)
    case (1 t)
    then show ?case by (cases t) simp_all
  qed simp_all
  have null_iff: "(node_at (update_at f p t) q = Null) = (node_at t q = Null)" for f p t q
    using shape [of f p t q]
    by (cases "node_at (update_at f p t) q"; cases "node_at t q") simp_all
  show ?thesis
    apply (relation "measure (\<lambda>(f, t, st). sum_list (map (?w t) st))")
     apply simp
    apply (frule kids)
    apply (auto simp: push_if_def child_ptr_def shape null_iff split: option.splits if_splits)
    done
qed

definition lerp :: "float \<Rightarrow> float \<Rightarrow> float \<Rightarrow> float" where
  "lerp a b t = a + (b - a) * t"

definition AnimateNodes :: "float \<Rightarrow> Globals \<Rightarrow> error + Globals" where
  "AnimateNodes dt s =
     (if root s = Null then Inr s
      else case walk_loop
                  (\<lambda>a. a\<lparr>n_x := lerp (n_x a) (n_tx a) (dt * 5),
                          n_y := lerp (n_y a) (n_ty a) (dt * 5)\<rparr>)
                  (root s) [Some []] of
             Inl e \<Rightarrow> Inl e
           | Inr t \<Rightarrow> Inr (s\<lparr>root := t\<rparr>))"

definition ResetTreeColors :: "Globals \<Rightarrow> error + Globals" where
  "ResetTreeColors s =
     (if root s = Null then Inr s
      else case walk_loop (\<lambda>a. a\<lparr>n_color := LIGHTGRAY\<rparr>) (root s) [Some []] of
             Inl e \<Rightarrow> Inl e
           | Inr t \<Rightarrow> Inr (s\<lparr>root := t\<rparr>))"

section \<open>Insert and search animations\<close>

definition StartInsertAnimation :: "Globals \<Rightarrow> Globals" where
  "StartInsertAnimation s =
     s\<lparr>mode := INSERTING,
       algoSteps := [''Start at root'', ''Compare values'', ''Move left / right'',
                     ''Insert at leaf'', ''Recalculate layout''],
       algoStepIndex := 0, algoTimer := 0, current := root_ptr (root s)\<rparr>"

definition StartSearchAnimation :: "Globals \<Rightarrow> Globals" where
  "StartSearchAnimation s =
     s\<lparr>mode := SEARCHING, found := False, current := root_ptr (root s),
       algoSteps := [''Start at root'', ''Compare target'', ''Move left or right'',
                     ''Repeat until found or NULL''],
       algoStepIndex := 0, algoTimer := 0\<rparr>"

definition UpdateSearch :: "float \<Rightarrow> Globals \<Rightarrow> error + Globals" where
  "UpdateSearch dt s =
     (case current s of
        None \<Rightarrow> Inr (s\<lparr>mode := IDLE\<rparr>)
      | Some p \<Rightarrow>
          let s1 = advance_algo dt s;
              s2 = s1\<lparr>moveTimer := moveTimer s1 + dt\<rparr>
          in if moveTimer s2 < 0.6 then Inr s2
             else let s3 = s2\<lparr>moveTimer := 0\<rparr>
                  in case node_at (root s3) p of
                       Null \<Rightarrow> Inl Dangling
                     | Node l a r \<Rightarrow>
                         if inputValue s3 = n_value a
                         then Inr (s3\<lparr>found := True, mode := IDLE\<rparr>)
                         else if inputValue s3 < n_value a
                         then Inr (s3\<lparr>current := child_ptr (root s3) p L\<rparr>)
                         else Inr (s3\<lparr>current := child_ptr (root s3) p R\<rparr>))"

section \<open>Delete animation\<close>

text \<open>
  The locating loop of \<^verbatim>\<open>StartDeleteAnimation\<close>: \<open>t\<close> is the node \<^verbatim>\<open>temp\<close> points at and
  \<open>p\<close> is that pointer.
\<close>

fun locate :: "Tree \<Rightarrow> int \<Rightarrow> Dir list \<Rightarrow> ptr" where
  "locate Null v p = None"
| "locate (Node l a r) v p =
     (if n_value a = v then Some p
      else if v < n_value a then locate l v (p @ [L])
      else locate r v (p @ [R]))"

definition StartDeleteAnimation :: "Globals \<Rightarrow> Globals" where
  "StartDeleteAnimation s =
     (let s1 = s\<lparr>mode := DELETING, delNode := None, delFlashTimer := 0, delFlashCount := 0,
                  algoSteps := [''Find node'', ''Flash target node'', ''Drop node'',
                                ''Fade node'', ''Delete & restructure''],
                  algoStepIndex := 0, algoTimer := 0\<rparr>;
          s2 = s1\<lparr>delNode := locate (root s1) (inputValue s1) []\<rparr>
      in if delNode s2 = None then s2\<lparr>mode := IDLE\<rparr> else s2)"

text \<open>Writing through \<^verbatim>\<open>delNode\<close>, which must still point at a node.\<close>

definition write_node :: "(NodeData \<Rightarrow> NodeData) \<Rightarrow> Dir list \<Rightarrow> Globals \<Rightarrow> error + Globals" where
  "write_node f p s =
     (if node_at (root s) p = Null then Inl Dangling
      else Inr (s\<lparr>root := update_at f p (root s)\<rparr>))"

definition UpdateDelete :: "float \<Rightarrow> Globals \<Rightarrow> error + Globals" where
  "UpdateDelete dt s =
     (case delNode s of
        None \<Rightarrow> Inr (s\<lparr>mode := IDLE\<rparr>)
      | Some p \<Rightarrow>
          let s1 = advance_algo dt s
          in if algoStepIndex s1 = 1 then
               (let s2 = s1\<lparr>delFlashTimer := delFlashTimer s1 + dt\<rparr>
                in case (if delFlashTimer s2 > 0.12
                         then write_node
                                (\<lambda>a. a\<lparr>n_color := (if (delFlashCount s2 + 1) mod 2 = 0
                                                     then RED else LIGHTGRAY)\<rparr>) p
                                (s2\<lparr>delFlashTimer := 0, delFlashCount := delFlashCount s2 + 1\<rparr>)
                         else Inr s2) of
                     Inl e \<Rightarrow> Inl e
                   | Inr s3 \<Rightarrow>
                       if delFlashCount s3 > 6 then Inr (s3\<lparr>algoStepIndex := 2\<rparr>) else Inr s3)
             else if algoStepIndex s1 = 2 then
               (case write_node (\<lambda>a. a\<lparr>n_y := n_y a + dt * 300\<rparr>) p s1 of
                  Inl e \<Rightarrow> Inl e
                | Inr s2 \<Rightarrow>
                    if n_y (dat (node_at (root s2) p)) > 900
                    then Inr (s2\<lparr>algoStepIndex := 3\<rparr>) else Inr s2)
             else if algoStepIndex s1 = 3 then
               (case write_node (\<lambda>a. a\<lparr>n_alpha := n_alpha a - dt * 3\<rparr>) p s1 of
                  Inl e \<Rightarrow> Inl e
                | Inr s2 \<Rightarrow>
                    if n_alpha (dat (node_at (root s2) p)) \<le> 0
                    then Inr (s2\<lparr>algoStepIndex := 4\<rparr>) else Inr s2)
             else if algoStepIndex s1 = 4 then
               Inr (s1\<lparr>root := SetPositions (DeleteNode (root s1) (inputValue s1))
                                   TREE_START_X TREE_START_Y 200,
                        mode := IDLE\<rparr>)
             else Inr s1)"

section \<open>Traversal engine\<close>

text \<open>
  \<^verbatim>\<open>push_back\<close> on the frame vector reallocates exactly when the size has reached the
  capacity. How far the capacity then grows is the library's choice; the model doubles
  it, as libstdc++ and libc++ do.
\<close>

definition vector_grow :: "nat \<Rightarrow> nat" where
  "vector_grow c = max 1 (2 * c)"

definition push_back :: "TravFrame \<Rightarrow> Globals \<Rightarrow> Globals" where
  "push_back fr s =
     s\<lparr>travStack := fr # travStack s,
       travCapacity := (if length (travStack s) < travCapacity s then travCapacity s
                        else vector_grow (travCapacity s))\<rparr>"

definition start_traversal :: "Mode \<Rightarrow> string list \<Rightarrow> Globals \<Rightarrow> error + Globals" where
  "start_traversal m steps s =
     ResetTreeColors
       ((push_back \<lparr>node = root_ptr (root s), state = 0\<rparr> (s\<lparr>mode := m, travStack := []\<rparr>))
          \<lparr>travHighlight := None, edgeA := None, edgeB := None,
           algoSteps := steps, algoStepIndex := 0, algoTimer := 0, travTimer := 0,
           visited := []\<rparr>)"

definition StartTraverseIn :: "Globals \<Rightarrow> error + Globals" where
  "StartTraverseIn s =
     start_traversal TRAVERSING_IN
       [''In-order traversal:'', ''Go Left'', ''Visit Node'', ''Go Right''] s"

definition StartTraversePre :: "Globals \<Rightarrow> error + Globals" where
  "StartTraversePre s =
     start_traversal TRAVERSING_PRE
       [''Pre-order traversal:'', ''Visit Node'', ''Go Left'', ''Go Right''] s"

definition StartTraversePost :: "Globals \<Rightarrow> error + Globals" where
  "StartTraversePost s =
     start_traversal TRAVERSING_POST
       [''Post-order traversal:'', ''Go Left'', ''Go Right'', ''Visit Node''] s"

text \<open>
  The phases of \<^verbatim>\<open>UpdateTraversal\<close>, on the frame \<^verbatim>\<open>frame = travStack.back()\<close> with node
  \<^verbatim>\<open>n\<close>. \<open>go_child d k hl\<close> is a go-left or go-right phase: if \<^verbatim>\<open>n\<close> has the child, the
  edge to it is highlighted and a frame for it is pushed; then \<^verbatim>\<open>frame.state = k\<close>.
  \<^verbatim>\<open>frame\<close> is a reference into the vector, so the assignment after a \<^verbatim>\<open>push_back\<close>
  that has reallocated writes through a dangling reference. \<open>hl\<close> tells whether the
  phase also sets \<^verbatim>\<open>travHighlight = n\<close>.
\<close>

definition go_child :: "Dir \<Rightarrow> int \<Rightarrow> bool \<Rightarrow> Globals \<Rightarrow> error + Globals" where
  "go_child d k hl s =
     (case travStack s of
        [] \<Rightarrow> Inr s
      | fr # rest \<Rightarrow>
         (case node fr of
            None \<Rightarrow> Inl NullDeref
          | Some p \<Rightarrow>
              if node_at (root s) p = Null then Inl Dangling
              else let s1 = (if hl then s\<lparr>travHighlight := Some p\<rparr> else s)
                   in case child_ptr (root s1) p d of
                        None \<Rightarrow> Inr (s1\<lparr>travStack := fr\<lparr>state := k\<rparr> # rest\<rparr>)
                      | Some c \<Rightarrow>
                          if length (travStack s1) < travCapacity s1
                          then Inr ((push_back \<lparr>node = Some c, state = 0\<rparr>
                                       (s1\<lparr>edgeA := Some p, edgeB := Some c\<rparr>))
                                    \<lparr>travStack := \<lparr>node = Some c, state = 0\<rparr> #
                                                   fr\<lparr>state := k\<rparr> # rest\<rparr>)
                          else Inl DanglingReference))"

text \<open>A visit phase: \<^verbatim>\<open>travHighlight = n; n->color = ORANGE; frame.state = k\<close>.\<close>

definition visit_node :: "int \<Rightarrow> Globals \<Rightarrow> error + Globals" where
  "visit_node k s =
     (case travStack s of
        [] \<Rightarrow> Inr s
      | fr # rest \<Rightarrow>
         (case node fr of
            None \<Rightarrow> Inl NullDeref
          | Some p \<Rightarrow>
              if node_at (root s) p = Null then Inl Dangling
              else Inr (s\<lparr>travHighlight := Some p,
                          root := update_at (\<lambda>a. a\<lparr>n_color := ORANGE\<rparr>) p (root s),
                          visited := visited s @ [p],
                          travStack := fr\<lparr>state := k\<rparr> # rest\<rparr>)))"

text \<open>A return phase: \<^verbatim>\<open>travStack.pop_back()\<close>.\<close>

definition pop_frame :: "Globals \<Rightarrow> error + Globals" where
  "pop_frame s = Inr (s\<lparr>travStack := tl (travStack s)\<rparr>)"

definition UpdateTraversal :: "float \<Rightarrow> Globals \<Rightarrow> error + Globals" where
  "UpdateTraversal dt s =
     (case travStack s of
        [] \<Rightarrow> Inr (s\<lparr>mode := IDLE, travHighlight := None, edgeA := None, edgeB := None\<rparr>)
      | fr # rest \<Rightarrow>
          let s1 = advance_algo dt s;
              s2 = s1\<lparr>travTimer := travTimer s1 + dt\<rparr>
          in if travTimer s2 < 0.8 then Inr s2
             else let s3 = s2\<lparr>travTimer := 0, edgeA := None, edgeB := None\<rparr>
                  in case mode s3 of
                       TRAVERSING_IN \<Rightarrow>
                         if state fr = 0 then go_child L 1 True s3
                         else if state fr = 1 then visit_node 2 s3
                         else if state fr = 2 then go_child R 3 False s3
                         else if state fr = 3 then pop_frame s3
                         else Inr s3
                     | TRAVERSING_PRE \<Rightarrow>
                         if state fr = 0 then visit_node 1 s3
                         else if state fr = 1 then go_child L 2 False s3
                         else if state fr = 2 then go_child R 3 False s3
                         else if state fr = 3 then pop_frame s3
                         else Inr s3
                     | TRAVERSING_POST \<Rightarrow>
                         if state fr = 0 then go_child L 1 True s3
                         else if state fr = 1 then go_child R 2 True s3
                         else if state fr = 2 then visit_node 3 s3
                         else if state fr = 3 then pop_frame s3
                         else Inr s3
                     | _ \<Rightarrow> Inr s3)"

section \<open>Main loop\<close>

text \<open>The program's initial state.\<close>

definition initial :: Globals where
  "initial =
     \<lparr>root = Null, inputValue = 10, current = None, found = False, mode = IDLE,
      algoSteps = [], algoStepIndex = 0, algoTimer = 0, moveTimer = 0,
      delNode = None, delFlashTimer = 0, delFlashCount = 0,
      travStack = [], travCapacity = 0, travHighlight = None, edgeA = None, edgeB = None,
      travTimer = 0, visited = []\<rparr>"

text \<open>
  The arrow keys: \<^verbatim>\<open>inputValue++\<close> and \<^verbatim>\<open>inputValue--\<close> on a 32-bit \<^verbatim>\<open>int\<close>.
\<close>

definition KeyUp :: "Globals \<Rightarrow> error + Globals" where
  "KeyUp s =
     (if inputValue s = 2147483647 then Inl SignedOverflow
      else Inr (s\<lparr>inputValue := inputValue s + 1\<rparr>))"

definition KeyDown :: "Globals \<Rightarrow> error + Globals" where
  "KeyDown s =
     (if inputValue s = - 2147483648 then Inl SignedOverflow
      else Inr (s\<lparr>inputValue := inputValue s - 1\<rparr>))"

text \<open>The INSERT button.\<close>

definition ClickInsert :: "Globals \<Rightarrow> Globals" where
  "ClickInsert s =
     StartInsertAnimation
       (s\<lparr>root := SetPositions (Insert (root s) (inputValue s)) TREE_START_X TREE_START_Y 200\<rparr>)"

text \<open>
  The \<^verbatim>\<open>switch (mode)\<close> of the main loop, which calls the update function of the active
  animation once per frame, and a run of frames with the given frame times and no button
  or key pressed. The main loop also calls \<open>AnimateNodes\<close> in every frame, before the
  switch; it moves the nodes toward their targets and is not part of the state machines
  that \<open>frames\<close> steps.
\<close>

definition Update :: "float \<Rightarrow> Globals \<Rightarrow> error + Globals" where
  "Update dt s =
     (case mode s of
        INSERTING \<Rightarrow> Inr (advance_algo dt s)
      | SEARCHING \<Rightarrow> UpdateSearch dt s
      | DELETING \<Rightarrow> UpdateDelete dt s
      | TRAVERSING_IN \<Rightarrow> UpdateTraversal dt s
      | TRAVERSING_PRE \<Rightarrow> UpdateTraversal dt s
      | TRAVERSING_POST \<Rightarrow> UpdateTraversal dt s
      | IDLE \<Rightarrow> Inr s)"

fun frames :: "float list \<Rightarrow> Globals \<Rightarrow> error + Globals" where
  "frames [] s = Inr s"
| "frames (dt # dts) s =
     (case Update dt s of Inl e \<Rightarrow> Inl e | Inr s' \<Rightarrow> frames dts s')"

section \<open>Specification vocabulary\<close>

text \<open>Node count, key set, and the ordering invariant of the data model.\<close>

fun count :: "Tree \<Rightarrow> nat" where
  "count Null = 0"
| "count (Node l a r) = count l + 1 + count r"

fun keys :: "Tree \<Rightarrow> int set" where
  "keys Null = {}"
| "keys (Node l a r) = keys l \<union> {n_value a} \<union> keys r"

fun bst :: "Tree \<Rightarrow> bool" where
  "bst Null = True"
| "bst (Node l a r) =
     (bst l \<and> bst r \<and> (\<forall>k \<in> keys l. k < n_value a) \<and> (\<forall>k \<in> keys r. n_value a < k))"

text \<open>The three recursive traversals, as lists of keys.\<close>

fun inorder :: "Tree \<Rightarrow> int list" where
  "inorder Null = []"
| "inorder (Node l a r) = inorder l @ [n_value a] @ inorder r"

fun preorder :: "Tree \<Rightarrow> int list" where
  "preorder Null = []"
| "preorder (Node l a r) = [n_value a] @ preorder l @ preorder r"

fun postorder :: "Tree \<Rightarrow> int list" where
  "postorder Null = []"
| "postorder (Node l a r) = postorder l @ postorder r @ [n_value a]"

text \<open>
  The nodes of a tree in the three recursive orders, each node given by its path from the
  root; the tree without its colours; its height; and the tree with a function applied
  to every node, or to every node below a pointer.
\<close>

fun inorder_nodes :: "Tree \<Rightarrow> Dir list list" where
  "inorder_nodes Null = []"
| "inorder_nodes (Node l a r) =
     map ((#) L) (inorder_nodes l) @ [[]] @ map ((#) R) (inorder_nodes r)"

fun preorder_nodes :: "Tree \<Rightarrow> Dir list list" where
  "preorder_nodes Null = []"
| "preorder_nodes (Node l a r) =
     [[]] @ map ((#) L) (preorder_nodes l) @ map ((#) R) (preorder_nodes r)"

fun postorder_nodes :: "Tree \<Rightarrow> Dir list list" where
  "postorder_nodes Null = []"
| "postorder_nodes (Node l a r) =
     map ((#) L) (postorder_nodes l) @ map ((#) R) (postorder_nodes r) @ [[]]"

fun uncolored :: "Tree \<Rightarrow> Tree" where
  "uncolored Null = Null"
| "uncolored (Node l a r) = Node (uncolored l) (a\<lparr>n_color := LIGHTGRAY\<rparr>) (uncolored r)"

fun height :: "Tree \<Rightarrow> nat" where
  "height Null = 0"
| "height (Node l a r) = Suc (max (height l) (height r))"

fun map_nodes :: "(NodeData \<Rightarrow> NodeData) \<Rightarrow> Tree \<Rightarrow> Tree" where
  "map_nodes f Null = Null"
| "map_nodes f (Node l a r) = Node (map_nodes f l) (f a) (map_nodes f r)"

fun map_subtree :: "(NodeData \<Rightarrow> NodeData) \<Rightarrow> ptr \<Rightarrow> Tree \<Rightarrow> Tree" where
  "map_subtree f None t = t"
| "map_subtree f (Some []) t = map_nodes f t"
| "map_subtree f (Some (d # p)) Null = Null"
| "map_subtree f (Some (L # p)) (Node l a r) = Node (map_subtree f (Some p) l) a r"
| "map_subtree f (Some (R # p)) (Node l a r) = Node l a (map_subtree f (Some p) r)"

text \<open>The tree with the subtree at a path replaced by another tree.\<close>

fun replace_at :: "Tree \<Rightarrow> Dir list \<Rightarrow> Tree \<Rightarrow> Tree" where
  "replace_at t [] u = u"
| "replace_at Null (d # p) u = Null"
| "replace_at (Node l a r) (L # p) u = Node (replace_at l p u) a r"
| "replace_at (Node l a r) (R # p) u = Node l a (replace_at r p u)"

text \<open>
  \<open>reaches dt n s st vs\<close>: from \<open>s\<close>, \<open>n\<close> frames of time \<open>dt\<close> run without error and end in
  the same mode with the traversal stack \<open>st\<close>, having marked exactly the nodes \<open>vs\<close>, in
  that order, with the dwell timer at zero, the frame vector's capacity unchanged and the
  tree unchanged but for colours.
\<close>

definition reaches :: "float \<Rightarrow> nat \<Rightarrow> Globals \<Rightarrow> TravFrame list \<Rightarrow> Dir list list \<Rightarrow> bool" where
  "reaches dt n s st vs =
     (\<exists>s'. frames (replicate n dt) s = Inr s' \<and> mode s' = mode s \<and> travStack s' = st \<and>
           visited s' = visited s @ vs \<and> travTimer s' = 0 \<and>
           travCapacity s' = travCapacity s \<and> uncolored (root s') = uncolored (root s))"

text \<open>
  The invariant of the delete animation that bounds its flash counter: before the flash
  phase the counter and its timer are zero, during it every toggle has used more than
  0.12 of the at most 0.5 that the step broadcaster leaves the phase, and afterwards the
  counter no longer changes.
\<close>

definition flash_inv :: "Globals \<Rightarrow> bool" where
  "flash_inv s =
     (mode s \<in> {DELETING, IDLE} \<and> length (algoSteps s) = 5 \<and>
      (algoStepIndex s = 0 \<and> delFlashCount s = 0 \<and> delFlashTimer s = 0 \<or>
       algoStepIndex s = 1 \<and> 0 \<le> delFlashTimer s \<and> 0 \<le> delFlashCount s \<and> algoTimer s \<le> 0.5 \<and>
         0.12 * of_int (delFlashCount s) + delFlashTimer s \<le> algoTimer s + 0.12 \<or>
       algoStepIndex s \<in> {2, 3, 4} \<and> delFlashCount s \<le> 5))"

text \<open>
  The nodes the traversal engine has marked, by key, and a traversal from its start
  function through a run of frames.
\<close>

definition visited_keys :: "Globals \<Rightarrow> int list" where
  "visited_keys s = map (\<lambda>p. n_value (dat (node_at (root s) p))) (visited s)"

definition traverse :: "(Globals \<Rightarrow> error + Globals) \<Rightarrow> float list \<Rightarrow> Globals \<Rightarrow> error + Globals" where
  "traverse start dts s = (case start s of Inl e \<Rightarrow> Inl e | Inr s' \<Rightarrow> frames dts s')"

text \<open>
  The tree after a history of committed operations: the INSERT button runs \<open>Insert\<close> and
  the layout pass, the commit of the delete animation runs \<open>DeleteNode\<close> and the layout
  pass.
\<close>

datatype Op = Ins int | Del int

fun apply_op :: "Op \<Rightarrow> Tree \<Rightarrow> Tree" where
  "apply_op (Ins v) t = SetPositions (Insert t v) TREE_START_X TREE_START_Y 200"
| "apply_op (Del v) t = SetPositions (DeleteNode t v) TREE_START_X TREE_START_Y 200"

section \<open>Example inputs\<close>

text \<open>The tree of the specification's example: 50, 30, 70, 20, 40 inserted in that order.\<close>

definition example_tree :: Tree where
  "example_tree = fold (\<lambda>v t. Insert t v) [50, 30, 70, 20, 40] Null"

text \<open>
  The program after the example's five inserts: for each value the arrow keys bring the
  input to it and INSERT is pressed.
\<close>

definition example_state :: Globals where
  "example_state = fold (\<lambda>v s. ClickInsert (s\<lparr>inputValue := v\<rparr>)) [50, 30, 70, 20, 40] initial"

text \<open>
  A search for 40 on that state, at 64 frames a second, in which SEARCH is pressed again
  after 38 frames: the search up to the second press, and the first frame after it.
\<close>

definition interrupted_search :: "error + Globals" where
  "interrupted_search = frames (replicate 38 (1 / 64)) (StartSearchAnimation example_state)"

definition restarted_search :: "error + Globals" where
  "restarted_search =
     (case interrupted_search of
        Inl e \<Rightarrow> Inl e
      | Inr s \<Rightarrow> frames [1 / 64] (StartSearchAnimation s))"

text \<open>A state whose tree has seen three inserts and the deletion of 30.\<close>

definition search_example :: Globals where
  "search_example = initial\<lparr>root := fold apply_op [Ins 50, Ins 30, Ins 70, Del 30] Null\<rparr>"

text \<open>
  A fresh program in which INSERT is pressed once (key 10) and then DELETE: the delete
  animation has located the root.
\<close>

definition delete_example :: Globals where
  "delete_example = StartDeleteAnimation (ClickInsert initial)"

text \<open>
  A run in which the input changes during the delete animation: insert 10, press UP,
  insert 11, press DOWN, press DELETE (which locates the node with key 10), let five
  frames of a quarter second pass, press UP, and let five more frames pass. The next
  frame is the commit.
\<close>

definition retarget_run :: "error + Globals" where
  "retarget_run =
     (case KeyUp (ClickInsert initial) of
        Inl e \<Rightarrow> Inl e
      | Inr s1 \<Rightarrow>
         (case KeyDown (ClickInsert s1) of
            Inl e \<Rightarrow> Inl e
          | Inr s2 \<Rightarrow>
             (case frames (replicate 5 (1 / 4)) (StartDeleteAnimation s2) of
                Inl e \<Rightarrow> Inl e
              | Inr s3 \<Rightarrow>
                 (case KeyUp s3 of
                    Inl e \<Rightarrow> Inl e
                  | Inr s4 \<Rightarrow> frames (replicate 5 (1 / 4)) s4))))"

definition retarget_state :: Globals where
  "retarget_state = (case retarget_run of Inl e \<Rightarrow> initial | Inr s \<Rightarrow> s)"

text \<open>
  A search tree of 201 nodes: a right spine 10, 20, ..., 1010 whose first hundred nodes
  each have a left child, built by inserting 10, 5, 20, 15, ..., 1000, 995, 1010.
\<close>

definition deep_keys :: "int list" where
  "deep_keys = concat (map (\<lambda>k. [10 * int k, 10 * int k - 5]) [1..<101]) @ [1010]"

definition deep_tree :: Tree where
  "deep_tree = fold (\<lambda>v t. Insert t v) deep_keys Null"

section \<open>Properties of the mutation engine\<close>

lemma keys_Insert: "keys (Insert t v) = keys t \<union> {v}"
  by (induction t) (auto simp: CreateNode_def)

lemma bst_Insert: "bst t \<Longrightarrow> bst (Insert t v)"
  by (induction t) (auto simp: CreateNode_def keys_Insert)

lemma MinNode_not_Null: "t \<noteq> Null \<Longrightarrow> MinNode t \<noteq> Null"
  by (induction t) auto

lemma finite_keys: "finite (keys t)"
  by (induction t) auto

lemma Insert_present: "bst t \<Longrightarrow> v \<in> keys t \<Longrightarrow> Insert t v = t"
  by (induction t) (auto simp: CreateNode_def)

lemma Insert_twice: "Insert (Insert t v) v = Insert t v"
  by (induction t) (auto simp: CreateNode_def)

lemma MinNode_key: "bst t \<Longrightarrow> t \<noteq> Null \<Longrightarrow> n_value (dat (MinNode t)) = Min (keys t)"
proof (induction t)
  case Null
  then show ?case by simp
next
  case (Node l a r)
  show ?case
  proof (cases "l = Null")
    case True
    with Node.prems have "\<forall>k \<in> keys (Node l a r). n_value a \<le> k" by auto
    moreover have "n_value a \<in> keys (Node l a r)" by simp
    ultimately have "Min (keys (Node l a r)) = n_value a"
      using finite_keys [of "Node l a r"] by (meson Min_eqI)
    with True show ?thesis by simp
  next
    case False
    with Node have m: "n_value (dat (MinNode l)) = Min (keys l)" by simp
    from False have ne: "keys l \<noteq> {}" by (cases l) auto
    then have in_l: "Min (keys l) \<in> keys l" using finite_keys by (simp add: Min_in)
    have "\<forall>k \<in> keys (Node l a r). Min (keys l) \<le> k"
    proof
      fix k assume "k \<in> keys (Node l a r)"
      then consider "k \<in> keys l" | "k = n_value a" | "k \<in> keys r" by auto
      then show "Min (keys l) \<le> k"
      proof cases
        case 1 then show ?thesis using finite_keys by simp
      next
        case 2 then show ?thesis using in_l Node.prems(1) by auto
      next
        case 3 then show ?thesis using in_l Node.prems(1) by fastforce
      qed
    qed
    moreover have "Min (keys l) \<in> keys (Node l a r)" using in_l by simp
    ultimately have "Min (keys (Node l a r)) = Min (keys l)"
      using finite_keys [of "Node l a r"] by (meson Min_eqI)
    with m False show ?thesis by simp
  qed
qed

lemma MinNode_in_keys: "t \<noteq> Null \<Longrightarrow> n_value (dat (MinNode t)) \<in> keys t"
  by (induction t) auto

lemma keys_DeleteNode: "bst t \<Longrightarrow> keys (DeleteNode t v) = keys t - {v}"
proof (induction t arbitrary: v)
  case Null
  then show ?case by simp
next
  case (Node l a r)
  show ?case
  proof (cases "v = n_value a \<and> l \<noteq> Null \<and> r \<noteq> Null")
    case True
    let ?m = "n_value (dat (MinNode r))"
    from True have mr: "?m \<in> keys r" by (simp add: MinNode_in_keys)
    from Node.prems have "bst r" by simp
    then have "keys (DeleteNode r ?m) = keys r - {?m}" by (rule Node.IH)
    with True mr Node.prems show ?thesis by (auto simp: Let_def)
  next
    case False
    with Node show ?thesis by (auto simp: Let_def)
  qed
qed

lemma bst_DeleteNode: "bst t \<Longrightarrow> bst (DeleteNode t v)"
proof (induction t arbitrary: v)
  case Null
  then show ?case by simp
next
  case (Node l a r)
  show ?case
  proof (cases "v = n_value a \<and> l \<noteq> Null \<and> r \<noteq> Null")
    case True
    let ?m = "n_value (dat (MinNode r))"
    from True have mr: "?m \<in> keys r" by (simp add: MinNode_in_keys)
    from Node.prems have br: "bst r" by simp
    have mmin: "?m = Min (keys r)" using br True by (simp add: MinNode_key)
    have "\<forall>k \<in> keys (DeleteNode r ?m). ?m < k"
    proof
      fix k assume "k \<in> keys (DeleteNode r ?m)"
      then have "k \<in> keys r" "k \<noteq> ?m" using br by (simp_all add: keys_DeleteNode)
      moreover from \<open>k \<in> keys r\<close> have "Min (keys r) \<le> k" using finite_keys by simp
      ultimately show "?m < k" using mmin by simp
    qed
    moreover have "\<forall>k \<in> keys l. k < ?m" using Node.prems mr by fastforce
    moreover have "bst (DeleteNode r ?m)" using br by (rule Node.IH)
    ultimately show ?thesis using True Node.prems by (simp add: Let_def)
  next
    case False
    with Node show ?thesis by (auto simp: Let_def keys_DeleteNode)
  qed
qed

lemma count_DeleteNode: "v \<in> keys t \<Longrightarrow> bst t \<Longrightarrow> count (DeleteNode t v) = count t - 1"
proof (induction t arbitrary: v)
  case Null
  then show ?case by simp
next
  case (Node l a r)
  have pos: "0 < count u" if "k \<in> keys u" for k u using that by (cases u) auto
  show ?case
  proof (cases "v = n_value a \<and> l \<noteq> Null \<and> r \<noteq> Null")
    case True
    let ?m = "n_value (dat (MinNode r))"
    from True have mr: "?m \<in> keys r" by (simp add: MinNode_in_keys)
    from Node.prems have "bst r" by simp
    with mr have "count (DeleteNode r ?m) = count r - 1" by (rule Node.IH)
    moreover have "0 < count r" using mr by (rule pos)
    ultimately show ?thesis using True by (simp add: Let_def)
  next
    case False
    consider "v < n_value a" | "v > n_value a" | "v = n_value a" by linarith
    then show ?thesis
    proof cases
      case 1
      with Node.prems have vl: "v \<in> keys l" by fastforce
      from Node.prems have "bst l" by simp
      with vl have "count (DeleteNode l v) = count l - 1" by (rule Node.IH)
      moreover from vl have "0 < count l" by (rule pos)
      ultimately show ?thesis using 1 by simp
    next
      case 2
      with Node.prems have vr: "v \<in> keys r" by fastforce
      from Node.prems have "bst r" by simp
      with vr have "count (DeleteNode r v) = count r - 1" by (rule Node.IH)
      moreover from vr have "0 < count r" by (rule pos)
      moreover from 2 have "\<not> v < n_value a" by simp
      ultimately show ?thesis using 2 by simp
    next
      case 3
      with False show ?thesis by auto
    qed
  qed
qed


lemma set_inorder: "set (inorder t) = keys t"
  by (induction t) auto

lemma bst_distinct_inorder: "bst t \<Longrightarrow> distinct (inorder t)"
  by (induction t) (fastforce simp: set_inorder)+

lemma bst_fold_Insert: "bst t \<Longrightarrow> bst (fold (\<lambda>v t. Insert t v) vs t)"
  by (induction vs arbitrary: t) (simp_all add: bst_Insert)

lemma bst_node_at: "bst t \<Longrightarrow> bst (node_at t p)"
  by (induction t p rule: node_at.induct) simp_all

text \<open>
  On a search tree \<open>DeleteNode\<close> rewrites only the subtree of the node that holds the
  key, and the successor of a node is the end of the left spine of its right subtree.
\<close>

lemma node_at_key_in_keys: "node_at t p = Node l a r \<Longrightarrow> n_value a \<in> keys t"
  by (induction t p rule: node_at.induct) auto

lemma key_has_node: "v \<in> keys t \<Longrightarrow> \<exists>p l a r. node_at t p = Node l a r \<and> n_value a = v"
proof (induction t)
  case Null
  then show ?case by simp
next
  case (Node l a r)
  from Node.prems consider "v \<in> keys l" | "v = n_value a" | "v \<in> keys r" by auto
  then show ?case
  proof cases
    case 1
    with Node.IH(1) obtain p l' a' r' where "node_at l p = Node l' a' r'" "n_value a' = v" by blast
    then have "node_at (Node l a r) (L # p) = Node l' a' r' \<and> n_value a' = v" by simp
    then show ?thesis by blast
  next
    case 2
    then have "node_at (Node l a r) [] = Node l a r \<and> n_value a = v" by simp
    then show ?thesis by blast
  next
    case 3
    with Node.IH(2) obtain p l' a' r' where "node_at r p = Node l' a' r'" "n_value a' = v" by blast
    then have "node_at (Node l a r) (R # p) = Node l' a' r' \<and> n_value a' = v" by simp
    then show ?thesis by blast
  qed
qed

lemma DeleteNode_at:
  "bst t \<Longrightarrow> node_at t p = Node l a r \<Longrightarrow> n_value a = v \<Longrightarrow>
   DeleteNode t v = replace_at t p (DeleteNode (Node l a r) v)"
proof (induction t p rule: node_at.induct)
  case (1 t)
  then show ?case by simp
next
  case (2 d p)
  then show ?case by simp
next
  case (3 l' a' r' p)
  from "3.prems"(2) have "node_at l' p = Node l a r" by simp
  then have "n_value a \<in> keys l'" by (rule node_at_key_in_keys)
  with "3.prems" have lt: "v < n_value a'" by auto
  from "3.prems" have "bst l'" by simp
  from "3.IH" [OF this \<open>node_at l' p = Node l a r\<close> "3.prems"(3)] lt show ?case by simp
next
  case (4 l' a' r' p)
  from "4.prems"(2) have n: "node_at r' p = Node l a r" by simp
  then have "n_value a \<in> keys r'" by (rule node_at_key_in_keys)
  with "4.prems" have gt: "n_value a' < v" by auto
  from "4.prems" have "bst r'" by simp
  from "4.IH" [OF this n "4.prems"(3)] gt show ?case by simp
qed


lemma MinNode_path:
  "t \<noteq> Null \<Longrightarrow> \<exists>q. set q \<subseteq> {L} \<and> node_at t q = MinNode t \<and> left (MinNode t) = Null"
proof (induction t)
  case Null
  then show ?case by simp
next
  case (Node l a r)
  show ?case
  proof (cases "l = Null")
    case True
    then have "set [] \<subseteq> {L} \<and> node_at (Node l a r) [] = MinNode (Node l a r) \<and>
               left (MinNode (Node l a r)) = Null" by simp
    then show ?thesis by blast
  next
    case False
    with Node.IH(1) obtain q where "set q \<subseteq> {L}" "node_at l q = MinNode l" "left (MinNode l) = Null"
      by blast
    with False have "set (L # q) \<subseteq> {L} \<and> node_at (Node l a r) (L # q) = MinNode (Node l a r) \<and>
               left (MinNode (Node l a r)) = Null" by simp
    then show ?thesis by blast
  qed
qed

lemma DeleteNode_successor:
  assumes "bst r" and "r \<noteq> Null"
  shows "\<exists>q. set q \<subseteq> {L} \<and> node_at r q = MinNode r \<and> left (MinNode r) = Null \<and>
             DeleteNode r (Min (keys r)) = replace_at r q (right (MinNode r))"
proof -
  from MinNode_path [OF assms(2)] obtain q where
    q: "set q \<subseteq> {L}" "node_at r q = MinNode r" "left (MinNode r) = Null" by blast
  from assms(2) have "MinNode r \<noteq> Null" by (simp add: MinNode_not_Null)
  with q(3) obtain b rr where m: "MinNode r = Node Null b rr" by (cases "MinNode r") auto
  from assms m have k: "n_value b = Min (keys r)" using MinNode_key [of r] by simp
  from q(2) m have n: "node_at r q = Node Null b rr" by simp
  have "DeleteNode (Node Null b rr) (Min (keys r)) = rr" using k by (cases rr) auto
  with DeleteNode_at [OF assms(1) n k] have "DeleteNode r (Min (keys r)) = replace_at r q rr" by simp
  with q m show ?thesis by auto
qed

section \<open>Properties of the search animation and of histories\<close>

lemma advance_algo_fields [simp]:
  "root (advance_algo dt s) = root s"
  "inputValue (advance_algo dt s) = inputValue s"
  "current (advance_algo dt s) = current s"
  "found (advance_algo dt s) = found s"
  "mode (advance_algo dt s) = mode s"
  "moveTimer (advance_algo dt s) = moveTimer s"
  "delNode (advance_algo dt s) = delNode s"
  "algoSteps (advance_algo dt s) = algoSteps s"
  "delFlashTimer (advance_algo dt s) = delFlashTimer s"
  "delFlashCount (advance_algo dt s) = delFlashCount s"
  "travStack (advance_algo dt s) = travStack s"
  "travCapacity (advance_algo dt s) = travCapacity s"
  "travTimer (advance_algo dt s) = travTimer s"
  "visited (advance_algo dt s) = visited s"
  by (simp_all add: advance_algo_def Let_def)

lemma frames_append:
  "frames (xs @ ys) s = (case frames xs s of Inl e \<Rightarrow> Inl e | Inr s' \<Rightarrow> frames ys s')"
  by (induction xs arbitrary: s) (simp_all split: sum.splits)

lemma node_at_append: "node_at t (p @ q) = node_at (node_at t p) q"
  by (induction t p rule: node_at.induct) (simp_all, (cases q; simp))

lemma UpdateSearch_absent:
  "current s = None \<Longrightarrow> UpdateSearch dt s = Inr (s\<lparr>mode := IDLE\<rparr>)"
  by (simp add: UpdateSearch_def)

lemma UpdateSearch_wait:
  assumes "current s = Some p" and "moveTimer s + dt < 0.6"
  shows "\<exists>s'. UpdateSearch dt s = Inr s' \<and> current s' = current s \<and> found s' = found s \<and>
           mode s' = mode s \<and> root s' = root s \<and> inputValue s' = inputValue s \<and>
           moveTimer s' = moveTimer s + dt"
  using assms by (simp add: UpdateSearch_def Let_def)

lemma UpdateSearch_step:
  assumes "current s = Some p" and "node_at (root s) p = Node l a r"
    and "\<not> moveTimer s + dt < 0.6"
  shows "\<exists>s'. UpdateSearch dt s = Inr s' \<and> root s' = root s \<and> inputValue s' = inputValue s \<and>
           moveTimer s' = 0 \<and>
           (if inputValue s = n_value a then found s' \<and> mode s' = IDLE
            else found s' = found s \<and> mode s' = mode s \<and>
                 current s' = child_ptr (root s) p (if inputValue s < n_value a then L else R))"
  using assms by (simp add: UpdateSearch_def Let_def)

lemma search_dwell:
  assumes dt: "0 < dt"
  shows "0.6 \<le> moveTimer s + of_nat N * dt \<Longrightarrow> mode s = SEARCHING \<Longrightarrow> current s = Some p \<Longrightarrow>
         node_at (root s) p = Node l a r \<Longrightarrow>
         \<exists>k s'. frames (replicate k dt) s = Inr s' \<and> root s' = root s \<and>
           inputValue s' = inputValue s \<and>
           (if inputValue s = n_value a then found s' \<and> mode s' = IDLE
            else found s' = found s \<and> mode s' = SEARCHING \<and>
                 current s' = child_ptr (root s) p (if inputValue s < n_value a then L else R))"
proof (induction N arbitrary: s)
  case 0
  with dt have "\<not> moveTimer s + dt < 0.6" by simp
  from UpdateSearch_step [OF "0.prems"(3) "0.prems"(4) this]
  obtain s' where "UpdateSearch dt s = Inr s'" "root s' = root s" "inputValue s' = inputValue s"
    "(if inputValue s = n_value a then found s' \<and> mode s' = IDLE
            else found s' = found s \<and> mode s' = mode s \<and>
                 current s' = child_ptr (root s) p (if inputValue s < n_value a then L else R))"
    by blast
  with "0.prems"(2) have "frames (replicate 1 dt) s = Inr s' \<and> root s' = root s \<and>
           inputValue s' = inputValue s \<and>
           (if inputValue s = n_value a then found s' \<and> mode s' = IDLE
            else found s' = found s \<and> mode s' = SEARCHING \<and>
                 current s' = child_ptr (root s) p (if inputValue s < n_value a then L else R))"
    by (simp add: Update_def)
  then show ?case by blast
next
  case (Suc N)
  show ?case
  proof (cases "moveTimer s + dt < 0.6")
    case False
    from UpdateSearch_step [OF Suc.prems(3) Suc.prems(4) False]
    obtain s' where "UpdateSearch dt s = Inr s'" "root s' = root s" "inputValue s' = inputValue s"
      "(if inputValue s = n_value a then found s' \<and> mode s' = IDLE
            else found s' = found s \<and> mode s' = mode s \<and>
                 current s' = child_ptr (root s) p (if inputValue s < n_value a then L else R))"
      by blast
    with Suc.prems(2) have "frames (replicate 1 dt) s = Inr s' \<and> root s' = root s \<and>
           inputValue s' = inputValue s \<and>
           (if inputValue s = n_value a then found s' \<and> mode s' = IDLE
            else found s' = found s \<and> mode s' = SEARCHING \<and>
                 current s' = child_ptr (root s) p (if inputValue s < n_value a then L else R))"
      by (simp add: Update_def)
    then show ?thesis by blast
  next
    case True
    from UpdateSearch_wait [OF Suc.prems(3) True]
    obtain s1 where s1: "UpdateSearch dt s = Inr s1" "current s1 = current s" "found s1 = found s"
      "mode s1 = mode s" "root s1 = root s" "inputValue s1 = inputValue s"
      "moveTimer s1 = moveTimer s + dt"
      by blast
    from Suc.prems(1) s1 have "0.6 \<le> moveTimer s1 + of_nat N * dt"
      by (simp add: algebra_simps)
    from Suc.IH [OF this] s1 Suc.prems
    obtain k s' where k: "frames (replicate k dt) s1 = Inr s'" "root s' = root s"
      "inputValue s' = inputValue s"
      "(if inputValue s = n_value a then found s' \<and> mode s' = IDLE
            else found s' = found s \<and> mode s' = SEARCHING \<and>
                 current s' = child_ptr (root s) p (if inputValue s < n_value a then L else R))"
      by auto
    from s1 Suc.prems(2) k have "frames (replicate (Suc k) dt) s = Inr s'"
      by (simp add: Update_def)
    with k show ?thesis by blast
  qed
qed

lemma search_dwell_ex:
  assumes dt: "0 < dt" and "mode s = SEARCHING" and "current s = Some p"
    and "node_at (root s) p = Node l a r"
  shows "\<exists>k s'. frames (replicate k dt) s = Inr s' \<and> root s' = root s \<and>
           inputValue s' = inputValue s \<and>
           (if inputValue s = n_value a then found s' \<and> mode s' = IDLE
            else found s' = found s \<and> mode s' = SEARCHING \<and>
                 current s' = child_ptr (root s) p (if inputValue s < n_value a then L else R))"
proof -
  from dt obtain N :: nat where "0.6 - moveTimer s < of_nat N * dt"
    using ex_less_of_nat_mult by blast
  then have "0.6 \<le> moveTimer s + of_nat N * dt" by simp
  from search_dwell [OF dt this assms(2-4)] show ?thesis .
qed

lemma search_descends:
  assumes dt: "0 < dt"
  shows "bst t \<Longrightarrow> node_at (root s) p = t \<Longrightarrow> mode s = SEARCHING \<Longrightarrow>
         current s = (if t = Null then None else Some p) \<Longrightarrow> \<not> found s \<Longrightarrow>
         \<exists>n s'. frames (replicate n dt) s = Inr s' \<and> mode s' = IDLE \<and>
                 (found s' \<longleftrightarrow> inputValue s \<in> keys t)"
proof (induction t arbitrary: s p)
  case Null
  then have "frames (replicate 1 dt) s = Inr (s\<lparr>mode := IDLE\<rparr>)"
    by (simp add: Update_def UpdateSearch_absent)
  moreover from Null have "mode (s\<lparr>mode := IDLE\<rparr>) = IDLE \<and>
     (found (s\<lparr>mode := IDLE\<rparr>) \<longleftrightarrow> inputValue s \<in> keys Null)" by simp
  ultimately show ?case by blast
next
  case (Node l a r)
  from Node.prems have cur: "current s = Some p" by simp
  from search_dwell_ex [OF dt Node.prems(3) cur Node.prems(2)]
  obtain k s1 where s1: "frames (replicate k dt) s = Inr s1" "root s1 = root s"
    "inputValue s1 = inputValue s"
    "(if inputValue s = n_value a then found s1 \<and> mode s1 = IDLE
      else found s1 = found s \<and> mode s1 = SEARCHING \<and>
           current s1 = child_ptr (root s) p (if inputValue s < n_value a then L else R))"
    by blast
  consider "inputValue s = n_value a" | "inputValue s < n_value a" | "inputValue s > n_value a"
    by linarith
  then show ?case
  proof cases
    case 1
    with s1 show ?thesis by auto
  next
    case 2
    with s1 have c: "found s1 = found s" "mode s1 = SEARCHING"
      "current s1 = child_ptr (root s) p L" by auto
    have nl: "node_at (root s1) (p @ [L]) = l"
      using Node.prems(2) s1(2) by (simp add: node_at_append)
    with c s1(2) have cur1: "current s1 = (if l = Null then None else Some (p @ [L]))"
      by (simp add: child_ptr_def)
    from Node.prems(1) have "bst l" by simp
    from Node.IH(1) [OF this nl c(2) cur1] c(1) Node.prems(5)
    obtain n s' where n: "frames (replicate n dt) s1 = Inr s'" "mode s' = IDLE"
      "found s' \<longleftrightarrow> inputValue s1 \<in> keys l" by auto
    from s1(1) n(1) have "frames (replicate (k + n) dt) s = Inr s'"
      by (simp add: replicate_add frames_append)
    moreover from 2 Node.prems(1) have "inputValue s \<in> keys (Node l a r) \<longleftrightarrow> inputValue s \<in> keys l"
      by auto
    ultimately show ?thesis using n s1(3) by auto
  next
    case 3
    with s1 have c: "found s1 = found s" "mode s1 = SEARCHING"
      "current s1 = child_ptr (root s) p R" by auto
    have nr: "node_at (root s1) (p @ [R]) = r"
      using Node.prems(2) s1(2) by (simp add: node_at_append)
    with c s1(2) have cur1: "current s1 = (if r = Null then None else Some (p @ [R]))"
      by (simp add: child_ptr_def)
    from Node.prems(1) have "bst r" by simp
    from Node.IH(2) [OF this nr c(2) cur1] c(1) Node.prems(5)
    obtain n s' where n: "frames (replicate n dt) s1 = Inr s'" "mode s' = IDLE"
      "found s' \<longleftrightarrow> inputValue s1 \<in> keys r" by auto
    from s1(1) n(1) have "frames (replicate (k + n) dt) s = Inr s'"
      by (simp add: replicate_add frames_append)
    moreover from 3 Node.prems(1) have "inputValue s \<in> keys (Node l a r) \<longleftrightarrow> inputValue s \<in> keys r"
      by auto
    ultimately show ?thesis using n s1(3) by auto
  qed
qed

lemma search_terminates:
  assumes "0 < dt" and "bst (root s)"
  shows "\<exists>n s'. frames (replicate n dt) (StartSearchAnimation s) = Inr s' \<and> mode s' = IDLE \<and>
                 (found s' \<longleftrightarrow> inputValue s \<in> keys (root s))"
proof -
  let ?s = "StartSearchAnimation s"
  have "\<exists>n s'. frames (replicate n dt) ?s = Inr s' \<and> mode s' = IDLE \<and>
                 (found s' \<longleftrightarrow> inputValue ?s \<in> keys (root s))"
    by (rule search_descends [OF assms(1) assms(2), of ?s "[]"])
       (simp_all add: StartSearchAnimation_def root_ptr_def)
  then show ?thesis by (simp add: StartSearchAnimation_def)
qed

lemma keys_SetPositions: "keys (SetPositions t x y offset) = keys t"
  by (induction t arbitrary: x y offset) simp_all

lemma bst_SetPositions: "bst (SetPositions t x y offset) = bst t"
  by (induction t arbitrary: x y offset) (simp_all add: keys_SetPositions)

lemma bst_apply_op: "bst t \<Longrightarrow> bst (apply_op op t)"
  by (cases op) (simp_all add: bst_SetPositions bst_Insert bst_DeleteNode)

lemma keys_apply_op:
  "bst t \<Longrightarrow> keys (apply_op op t) = (case op of Ins v \<Rightarrow> keys t \<union> {v} | Del v \<Rightarrow> keys t - {v})"
  by (cases op) (simp_all add: keys_SetPositions keys_Insert keys_DeleteNode)

lemma bst_history: "bst t \<Longrightarrow> bst (fold apply_op ops t)"
  by (induction ops arbitrary: t) (simp_all add: bst_apply_op)

lemma history_keeps:
  "bst t \<Longrightarrow> Del v \<notin> set ops \<Longrightarrow> v \<in> keys t \<or> Ins v \<in> set ops \<Longrightarrow>
   v \<in> keys (fold apply_op ops t)"
proof (induction ops arbitrary: t)
  case Nil
  then show ?case by simp
next
  case (Cons op ops)
  from Cons.prems(1) have b: "bst (apply_op op t)" by (rule bst_apply_op)
  from Cons.prems have "v \<in> keys (apply_op op t) \<or> Ins v \<in> set ops"
    by (cases op) (auto simp: keys_SetPositions keys_Insert keys_DeleteNode)
  moreover from Cons.prems(2) have "Del v \<notin> set ops" by simp
  ultimately have "v \<in> keys (fold apply_op ops (apply_op op t))"
    using b by (intro Cons.IH)
  then show ?case by simp
qed

lemma history_never_inserted:
  "bst t \<Longrightarrow> Ins v \<notin> set ops \<Longrightarrow> v \<notin> keys t \<Longrightarrow> v \<notin> keys (fold apply_op ops t)"
proof (induction ops arbitrary: t)
  case Nil
  then show ?case by simp
next
  case (Cons op ops)
  from Cons.prems(1) have b: "bst (apply_op op t)" by (rule bst_apply_op)
  from Cons.prems have "v \<notin> keys (apply_op op t)"
    by (cases op) (auto simp: keys_SetPositions keys_Insert keys_DeleteNode)
  moreover from Cons.prems(2) have "Ins v \<notin> set ops" by simp
  ultimately have "v \<notin> keys (fold apply_op ops (apply_op op t))"
    using b by (intro Cons.IH)
  then show ?case by simp
qed

text \<open>
  The steps of the search, for any value of the dwell timer, and its end on the tree of
  any history of inserts and deletes.
\<close>

lemma search_steps:
  "(current (StartSearchAnimation s) = root_ptr (root s) \<and> \<not> found (StartSearchAnimation s) \<and>
    mode (StartSearchAnimation s) = SEARCHING \<and> root (StartSearchAnimation s) = root s \<and>
    inputValue (StartSearchAnimation s) = inputValue s) \<and>
   (\<forall>p. current s = Some p \<and> moveTimer s + dt < 0.6 \<longrightarrow>
      (\<exists>s'. UpdateSearch dt s = Inr s' \<and> current s' = current s \<and> found s' = found s \<and>
            mode s' = mode s)) \<and>
   (current s = None \<longrightarrow> UpdateSearch dt s = Inr (s\<lparr>mode := IDLE\<rparr>)) \<and>
   (\<forall>p l a r. current s = Some p \<and> node_at (root s) p = Node l a r \<and> \<not> moveTimer s + dt < 0.6 \<longrightarrow>
      (\<exists>s'. UpdateSearch dt s = Inr s' \<and>
         (if inputValue s = n_value a then found s' \<and> mode s' = IDLE
          else found s' = found s \<and> mode s' = mode s \<and>
               current s' = child_ptr (root s) p (if inputValue s < n_value a then L else R)))) \<and>
   (0 < dt \<and> root s = fold apply_op ops Null \<longrightarrow>
      (Ins (inputValue s) \<in> set ops \<and> Del (inputValue s) \<notin> set ops \<longrightarrow>
         (\<exists>n s'. frames (replicate n dt) (StartSearchAnimation s) = Inr s' \<and>
                 mode s' = IDLE \<and> found s')) \<and>
      (Ins (inputValue s) \<notin> set ops \<longrightarrow>
         (\<exists>n s'. frames (replicate n dt) (StartSearchAnimation s) = Inr s' \<and>
                 mode s' = IDLE \<and> \<not> found s')))"
proof -
  have a: "current (StartSearchAnimation s) = root_ptr (root s) \<and> \<not> found (StartSearchAnimation s) \<and>
    mode (StartSearchAnimation s) = SEARCHING \<and> root (StartSearchAnimation s) = root s \<and>
    inputValue (StartSearchAnimation s) = inputValue s"
    by (simp add: StartSearchAnimation_def)
  have b: "\<forall>p. current s = Some p \<and> moveTimer s + dt < 0.6 \<longrightarrow>
      (\<exists>s'. UpdateSearch dt s = Inr s' \<and> current s' = current s \<and> found s' = found s \<and>
            mode s' = mode s)"
    using UpdateSearch_wait [of s _ dt] by blast
  have c: "current s = None \<longrightarrow> UpdateSearch dt s = Inr (s\<lparr>mode := IDLE\<rparr>)"
    by (simp add: UpdateSearch_absent)
  have d: "\<forall>p l a r. current s = Some p \<and> node_at (root s) p = Node l a r \<and> \<not> moveTimer s + dt < 0.6 \<longrightarrow>
      (\<exists>s'. UpdateSearch dt s = Inr s' \<and>
         (if inputValue s = n_value a then found s' \<and> mode s' = IDLE
          else found s' = found s \<and> mode s' = mode s \<and>
               current s' = child_ptr (root s) p (if inputValue s < n_value a then L else R)))"
  proof (intro allI impI)
    fix p l a r
    assume h: "current s = Some p \<and> node_at (root s) p = Node l a r \<and> \<not> moveTimer s + dt < 0.6"
    then have "\<exists>s'. UpdateSearch dt s = Inr s' \<and> root s' = root s \<and> inputValue s' = inputValue s \<and>
           moveTimer s' = 0 \<and>
           (if inputValue s = n_value a then found s' \<and> mode s' = IDLE
            else found s' = found s \<and> mode s' = mode s \<and>
                 current s' = child_ptr (root s) p (if inputValue s < n_value a then L else R))"
      by (intro UpdateSearch_step) simp_all
    then show "\<exists>s'. UpdateSearch dt s = Inr s' \<and>
         (if inputValue s = n_value a then found s' \<and> mode s' = IDLE
          else found s' = found s \<and> mode s' = mode s \<and>
               current s' = child_ptr (root s) p (if inputValue s < n_value a then L else R))"
      by blast
  qed
  have e: "(Ins (inputValue s) \<in> set ops \<and> Del (inputValue s) \<notin> set ops \<longrightarrow>
         (\<exists>n s'. frames (replicate n dt) (StartSearchAnimation s) = Inr s' \<and>
                 mode s' = IDLE \<and> found s')) \<and>
      (Ins (inputValue s) \<notin> set ops \<longrightarrow>
         (\<exists>n s'. frames (replicate n dt) (StartSearchAnimation s) = Inr s' \<and>
                 mode s' = IDLE \<and> \<not> found s'))"
    if dt: "0 < dt" and r: "root s = fold apply_op ops Null"
  proof -
    have bn: "bst Null" by simp
    from r have bs: "bst (root s)" using bst_history [OF bn, of ops] by simp
    from search_terminates [OF dt bs]
    obtain n s' where t: "frames (replicate n dt) (StartSearchAnimation s) = Inr s'"
      "mode s' = IDLE" "found s' \<longleftrightarrow> inputValue s \<in> keys (root s)" by blast
    have "inputValue s \<in> keys (root s)"
      if "Ins (inputValue s) \<in> set ops" "Del (inputValue s) \<notin> set ops"
      using history_keeps [of Null "inputValue s" ops] that r by simp
    moreover have "inputValue s \<notin> keys (root s)" if "Ins (inputValue s) \<notin> set ops"
      using history_never_inserted [of Null "inputValue s" ops] that r by simp
    ultimately show ?thesis using t by blast
  qed
  from a b c d e show ?thesis by blast
qed

lemma search_steps_example:
  "(0 < (1 / 64 :: float) \<and>
    root (search_example\<lparr>inputValue := 70\<rparr>) = fold apply_op [Ins 50, Ins 30, Ins 70, Del 30] Null \<and>
    Ins (inputValue (search_example\<lparr>inputValue := 70\<rparr>)) \<in> set [Ins 50, Ins 30, Ins 70, Del 30] \<and>
    Del (inputValue (search_example\<lparr>inputValue := 70\<rparr>)) \<notin> set [Ins 50, Ins 30, Ins 70, Del 30] \<and>
    (\<exists>n s'. frames (replicate n (1 / 64)) (StartSearchAnimation (search_example\<lparr>inputValue := 70\<rparr>)) = Inr s' \<and>
            mode s' = IDLE \<and> found s')) \<and>
   (Ins (inputValue search_example) \<notin> set [Ins 50, Ins 30, Ins 70, Del 30] \<and>
    (\<exists>n s'. frames (replicate n (1 / 64)) (StartSearchAnimation search_example) = Inr s' \<and>
            mode s' = IDLE \<and> \<not> found s'))"
proof -
  have r: "root (search_example\<lparr>inputValue := 70\<rparr>) = fold apply_op [Ins 50, Ins 30, Ins 70, Del 30] Null"
    "root search_example = fold apply_op [Ins 50, Ins 30, Ins 70, Del 30] Null"
    by (simp_all add: search_example_def)
  have i: "Ins (inputValue (search_example\<lparr>inputValue := 70\<rparr>)) \<in> set [Ins 50, Ins 30, Ins 70, Del 30]"
    "Del (inputValue (search_example\<lparr>inputValue := 70\<rparr>)) \<notin> set [Ins 50, Ins 30, Ins 70, Del 30]"
    "Ins (inputValue search_example) \<notin> set [Ins 50, Ins 30, Ins 70, Del 30]"
    by (simp_all add: search_example_def initial_def)
  have p: "0 < (1 / 64 :: float)" by simp
  from search_steps [of "search_example\<lparr>inputValue := 70\<rparr>" "1 / 64" "[Ins 50, Ins 30, Ins 70, Del 30]"]
    search_steps [of search_example "1 / 64" "[Ins 50, Ins 30, Ins 70, Del 30]"] r i p
  show ?thesis by blast
qed

section \<open>Properties of the full-tree walks\<close>

text \<open>
  A walk that returns has applied its update to every node of the tree, once: the tree
  it leaves is \<open>map_nodes\<close> of the update.
\<close>

lemma map_subtree_Null [simp]: "map_subtree f q Null = Null"
  by (cases "(f, q, Null)" rule: map_subtree.cases) simp_all

lemma map_subtree_children:
  "node_at t p \<noteq> Null \<Longrightarrow>
   map_subtree f (child_ptr (update_at f p t) p L)
     (map_subtree f (child_ptr (update_at f p t) p R) (update_at f p t)) =
   map_subtree f (Some p) t"
proof (induction t p rule: node_at.induct)
  case (1 t)
  then show ?case
    by (cases t) (auto simp: child_ptr_def)
next
  case (2 d p)
  then show ?case by simp
next
  case (3 l a r p)
  then show ?case
    by (cases "node_at (update_at f p l) (p @ [L]) = Null";
        cases "node_at (update_at f p l) (p @ [R]) = Null")
       (simp_all add: child_ptr_def)
next
  case (4 l a r p)
  then show ?case
    by (cases "node_at (update_at f p r) (p @ [L]) = Null";
        cases "node_at (update_at f p r) (p @ [R]) = Null")
       (simp_all add: child_ptr_def)
qed

lemma push_if_fold:
  "push_if q st = Inr st' \<Longrightarrow> fold (map_subtree f) st' t = fold (map_subtree f) st (map_subtree f q t)"
  by (auto simp: push_if_def split: option.splits if_splits)

lemma walk_loop_result:
  "walk_loop f t st = Inr t' \<Longrightarrow> t' = fold (map_subtree f) st t"
proof (induction f t st arbitrary: t' rule: walk_loop.induct)
  case (1 f t)
  then show ?case by simp
next
  case (2 f t st)
  then show ?case by simp
next
  case (3 f t p st)
  let ?t1 = "update_at f p t"
  from "3.prems" have n: "node_at t p \<noteq> Null" by (auto split: if_splits)
  from "3.prems" n obtain st1 st2 where
    p1: "push_if (child_ptr ?t1 p L) st = Inr st1" and
    p2: "push_if (child_ptr ?t1 p R) st1 = Inr st2" and
    w: "walk_loop f ?t1 st2 = Inr t'"
    by (auto simp: Let_def split: sum.splits)
  from "3.IH" [OF n refl p1 p2 w] have "t' = fold (map_subtree f) st2 ?t1" .
  also have "\<dots> = fold (map_subtree f) st1 (map_subtree f (child_ptr ?t1 p R) ?t1)"
    using p2 by (rule push_if_fold)
  also have "\<dots> = fold (map_subtree f) st
      (map_subtree f (child_ptr ?t1 p L) (map_subtree f (child_ptr ?t1 p R) ?t1))"
    using p1 by (rule push_if_fold)
  also have "\<dots> = fold (map_subtree f) st (map_subtree f (Some p) t)"
    using n by (simp add: map_subtree_children)
  finally show ?case by simp
qed

lemma AnimateNodes_result:
  assumes "AnimateNodes dt s = Inr s'"
  shows "s' = s\<lparr>root := map_nodes (\<lambda>a. a\<lparr>n_x := lerp (n_x a) (n_tx a) (dt * 5),
                                          n_y := lerp (n_y a) (n_ty a) (dt * 5)\<rparr>) (root s)\<rparr>"
proof (cases "root s = Null")
  case True
  with assms show ?thesis by (simp add: AnimateNodes_def)
next
  case False
  with assms obtain t' where
    w: "walk_loop (\<lambda>a. a\<lparr>n_x := lerp (n_x a) (n_tx a) (dt * 5),
                           n_y := lerp (n_y a) (n_ty a) (dt * 5)\<rparr>) (root s) [Some []] = Inr t'"
    and s': "s' = s\<lparr>root := t'\<rparr>"
    by (auto simp: AnimateNodes_def simp del: walk_loop.simps split: sum.splits)
  from walk_loop_result [OF w] s' show ?thesis by simp
qed

lemma ResetTreeColors_result:
  assumes "ResetTreeColors s = Inr s'"
  shows "s' = s\<lparr>root := map_nodes (\<lambda>a. a\<lparr>n_color := LIGHTGRAY\<rparr>) (root s)\<rparr>"
proof (cases "root s = Null")
  case True
  with assms show ?thesis by (simp add: ResetTreeColors_def)
next
  case False
  with assms obtain t' where
    w: "walk_loop (\<lambda>a. a\<lparr>n_color := LIGHTGRAY\<rparr>) (root s) [Some []] = Inr t'"
    and s': "s' = s\<lparr>root := t'\<rparr>"
    by (auto simp: ResetTreeColors_def simp del: walk_loop.simps split: sum.splits)
  from walk_loop_result [OF w] s' show ?thesis by simp
qed

section \<open>Properties of the traversal engine\<close>

text \<open>
  When the frame vector has room for as many frames as the tree is high, so that no
  \<^verbatim>\<open>push_back\<close> reallocates, the engine started on a non-empty tree marks the nodes in the
  recursive order and stops after four frames per node and one more.
\<close>

lemma uncolored_Null_iff [simp]: "(uncolored t = Null) = (t = Null)"
  by (cases t) simp_all

lemma node_at_uncolored: "node_at (uncolored t) p = uncolored (node_at t p)"
  by (induction t p rule: node_at.induct) simp_all

lemma uncolored_update_color [simp]:
  "uncolored (update_at (\<lambda>a. a\<lparr>n_color := c\<rparr>) p t) = uncolored t"
  by (induction "\<lambda>a::NodeData. a\<lparr>n_color := c\<rparr>" p t rule: update_at.induct) simp_all

lemma node_at_Null_uncolored:
  "uncolored t = uncolored t' \<Longrightarrow> (node_at t p = Null) = (node_at t' p = Null)"
  by (metis node_at_uncolored uncolored_Null_iff)

lemma reaches_trans:
  assumes "reaches dt n s st vs"
    and "\<And>s'. mode s' = mode s \<Longrightarrow> travStack s' = st \<Longrightarrow> travTimer s' = 0 \<Longrightarrow>
            travCapacity s' = travCapacity s \<Longrightarrow> uncolored (root s') = uncolored (root s) \<Longrightarrow>
            reaches dt m s' st' vs'"
  shows "reaches dt (n + m) s st' (vs @ vs')"
proof -
  from assms(1) obtain s1 where s1: "frames (replicate n dt) s = Inr s1" "mode s1 = mode s"
    "travStack s1 = st" "visited s1 = visited s @ vs" "travTimer s1 = 0"
    "travCapacity s1 = travCapacity s" "uncolored (root s1) = uncolored (root s)"
    unfolding reaches_def by blast
  from assms(2) [OF s1(2) s1(3) s1(5) s1(6) s1(7)]
  obtain s2 where s2: "frames (replicate m dt) s1 = Inr s2" "mode s2 = mode s1"
    "travStack s2 = st'" "visited s2 = visited s1 @ vs'" "travTimer s2 = 0"
    "travCapacity s2 = travCapacity s1" "uncolored (root s2) = uncolored (root s1)"
    unfolding reaches_def by blast
  from s1(1) s2(1) have "frames (replicate (n + m) dt) s = Inr s2"
    by (simp add: replicate_add frames_append)
  with s1 s2 show ?thesis unfolding reaches_def by simp
qed

lemma step_go_child_push:
  assumes dt: "0.8 \<le> dt" and tt: "0 \<le> travTimer s"
    and st: "travStack s = \<lparr>node = Some p, state = i\<rparr> # rest"
    and d: "(mode s, i, d, k) \<in> {(TRAVERSING_IN, 0, L, 1), (TRAVERSING_IN, 2, R, 3),
               (TRAVERSING_PRE, 1, L, 2), (TRAVERSING_PRE, 2, R, 3),
               (TRAVERSING_POST, 0, L, 1), (TRAVERSING_POST, 1, R, 2)}"
    and n: "node_at (root s) p \<noteq> Null" and c: "node_at (root s) (p @ [d]) \<noteq> Null"
    and cap: "Suc (length rest) < travCapacity s"
  shows "reaches dt 1 s (\<lparr>node = Some (p @ [d]), state = 0\<rparr> # \<lparr>node = Some p, state = k\<rparr> # rest) []"
proof -
  from dt tt have g: "\<not> travTimer s + dt < 0.8" by simp
  from d consider "mode s = TRAVERSING_IN" "i = 0" "d = L" "k = 1"
    | "mode s = TRAVERSING_IN" "i = 2" "d = R" "k = 3"
    | "mode s = TRAVERSING_PRE" "i = 1" "d = L" "k = 2"
    | "mode s = TRAVERSING_PRE" "i = 2" "d = R" "k = 3"
    | "mode s = TRAVERSING_POST" "i = 0" "d = L" "k = 1"
    | "mode s = TRAVERSING_POST" "i = 1" "d = R" "k = 2"
    by auto
  then show ?thesis
    using g st n c cap
    by cases
      (simp_all add: reaches_def Update_def UpdateTraversal_def Let_def go_child_def
        child_ptr_def push_back_def)
qed

lemma step_go_child_skip:
  assumes dt: "0.8 \<le> dt" and tt: "0 \<le> travTimer s"
    and st: "travStack s = \<lparr>node = Some p, state = i\<rparr> # rest"
    and d: "(mode s, i, d, k) \<in> {(TRAVERSING_IN, 0, L, 1), (TRAVERSING_IN, 2, R, 3),
               (TRAVERSING_PRE, 1, L, 2), (TRAVERSING_PRE, 2, R, 3),
               (TRAVERSING_POST, 0, L, 1), (TRAVERSING_POST, 1, R, 2)}"
    and n: "node_at (root s) p \<noteq> Null" and c: "node_at (root s) (p @ [d]) = Null"
  shows "reaches dt 1 s (\<lparr>node = Some p, state = k\<rparr> # rest) []"
proof -
  from dt tt have g: "\<not> travTimer s + dt < 0.8" by simp
  from d consider "mode s = TRAVERSING_IN" "i = 0" "d = L" "k = 1"
    | "mode s = TRAVERSING_IN" "i = 2" "d = R" "k = 3"
    | "mode s = TRAVERSING_PRE" "i = 1" "d = L" "k = 2"
    | "mode s = TRAVERSING_PRE" "i = 2" "d = R" "k = 3"
    | "mode s = TRAVERSING_POST" "i = 0" "d = L" "k = 1"
    | "mode s = TRAVERSING_POST" "i = 1" "d = R" "k = 2"
    by auto
  then show ?thesis
    using g st n c
    by cases
      (simp_all add: reaches_def Update_def UpdateTraversal_def Let_def go_child_def
        child_ptr_def)
qed

lemma step_visit:
  assumes dt: "0.8 \<le> dt" and tt: "0 \<le> travTimer s"
    and st: "travStack s = \<lparr>node = Some p, state = i\<rparr> # rest"
    and d: "(mode s, i, k) \<in> {(TRAVERSING_IN, 1, 2), (TRAVERSING_PRE, 0, 1), (TRAVERSING_POST, 2, 3)}"
    and n: "node_at (root s) p \<noteq> Null"
  shows "reaches dt 1 s (\<lparr>node = Some p, state = k\<rparr> # rest) [p]"
proof -
  from dt tt have g: "\<not> travTimer s + dt < 0.8" by simp
  from d consider "mode s = TRAVERSING_IN" "i = 1" "k = 2"
    | "mode s = TRAVERSING_PRE" "i = 0" "k = 1"
    | "mode s = TRAVERSING_POST" "i = 2" "k = 3"
    by auto
  then show ?thesis
    using g st n
    by cases
      (simp_all add: reaches_def Update_def UpdateTraversal_def Let_def visit_node_def)
qed

lemma step_pop:
  assumes dt: "0.8 \<le> dt" and tt: "0 \<le> travTimer s"
    and st: "travStack s = \<lparr>node = q, state = 3\<rparr> # rest"
    and d: "mode s \<in> {TRAVERSING_IN, TRAVERSING_PRE, TRAVERSING_POST}"
  shows "reaches dt 1 s rest []"
proof -
  from dt tt have g: "\<not> travTimer s + dt < 0.8" by simp
  from d consider "mode s = TRAVERSING_IN" | "mode s = TRAVERSING_PRE" | "mode s = TRAVERSING_POST"
    by auto
  then show ?thesis
    using g st
    by cases
      (simp_all add: reaches_def Update_def UpdateTraversal_def Let_def pop_frame_def)
qed

lemma uncolored_child:
  assumes "uncolored (node_at t p) = Node l a r" and "uncolored t' = uncolored t"
  shows "uncolored (node_at t' (p @ [L])) = l" and "uncolored (node_at t' (p @ [R])) = r"
    and "node_at t' p \<noteq> Null"
    and "(node_at t' (p @ [L]) = Null) = (l = Null)"
    and "(node_at t' (p @ [R]) = Null) = (r = Null)"
proof -
  from assms have n: "node_at (uncolored t') p = Node l a r"
    by (simp add: node_at_uncolored)
  then have "node_at (uncolored t') (p @ [L]) = l" "node_at (uncolored t') (p @ [R]) = r"
    by (simp_all add: node_at_append)
  then show l: "uncolored (node_at t' (p @ [L])) = l" and r: "uncolored (node_at t' (p @ [R])) = r"
    by (simp_all add: node_at_uncolored)
  from n show "node_at t' p \<noteq> Null"
    by (metis Tree.distinct(1) node_at_uncolored uncolored.simps(1))
  from l show "(node_at t' (p @ [L]) = Null) = (l = Null)" by (metis uncolored_Null_iff)
  from r show "(node_at t' (p @ [R]) = Null) = (r = Null)" by (metis uncolored_Null_iff)
qed

text \<open>
  One go-left or go-right phase together with the walk of the child it may push, given
  that walk (the induction hypothesis) for a non-empty child.
\<close>

lemma child_phase:
  assumes dt: "0.8 \<le> dt" and tt: "0 \<le> travTimer s"
    and st: "travStack s = \<lparr>node = Some p, state = i\<rparr> # rest"
    and d: "(mode s, i, d, k) \<in> {(TRAVERSING_IN, 0, L, 1), (TRAVERSING_IN, 2, R, 3),
               (TRAVERSING_PRE, 1, L, 2), (TRAVERSING_PRE, 2, R, 3),
               (TRAVERSING_POST, 0, L, 1), (TRAVERSING_POST, 1, R, 2)}"
    and n: "node_at (root s) p \<noteq> Null"
    and c: "uncolored (node_at (root s) (p @ [d])) = c"
    and cap: "c \<noteq> Null \<Longrightarrow> Suc (length rest) < travCapacity s"
    and walk: "\<And>s' :: Globals. c \<noteq> Null \<Longrightarrow> uncolored (node_at (root s') (p @ [d])) = c \<Longrightarrow> mode s' = mode s \<Longrightarrow>
        travStack s' = \<lparr>node = Some (p @ [d]), state = 0\<rparr> # \<lparr>node = Some p, state = k\<rparr> # rest \<Longrightarrow>
        travTimer s' = 0 \<Longrightarrow> travCapacity s' = travCapacity s \<Longrightarrow>
        reaches dt m s' (\<lparr>node = Some p, state = k\<rparr> # rest) vs"
    and m: "c = Null \<Longrightarrow> m = 0 \<and> vs = []"
  shows "reaches dt (1 + m) s (\<lparr>node = Some p, state = k\<rparr> # rest) vs"
proof (cases "c = Null")
  case True
  with c have "node_at (root s) (p @ [d]) = Null" by simp
  from step_go_child_skip [OF dt tt st d n this] True m show ?thesis by simp
next
  case False
  with c have ne: "node_at (root s) (p @ [d]) \<noteq> Null" by auto
  have "reaches dt (1 + m) s (\<lparr>node = Some p, state = k\<rparr> # rest) ([] @ vs)"
  proof (rule reaches_trans [OF step_go_child_push [OF dt tt st d n ne cap [OF False]]])
    fix s' :: Globals
    assume a: "mode s' = mode s"
      "travStack s' = \<lparr>node = Some (p @ [d]), state = 0\<rparr> # \<lparr>node = Some p, state = k\<rparr> # rest"
      "travTimer s' = 0" "travCapacity s' = travCapacity s"
      "uncolored (root s') = uncolored (root s)"
    from a(5) c have u: "uncolored (node_at (root s') (p @ [d])) = c"
      by (metis node_at_uncolored)
    show "reaches dt m s' (\<lparr>node = Some p, state = k\<rparr> # rest) vs"
      using False u a(1) a(2) a(3) a(4) by (rule walk)
  qed
  then show ?thesis by simp
qed

lemma inorder_walk:
  assumes dt: "0.8 \<le> dt"
  shows "uncolored (node_at (root s) p) = t \<Longrightarrow> t \<noteq> Null \<Longrightarrow> mode s = TRAVERSING_IN \<Longrightarrow>
         travStack s = \<lparr>node = Some p, state = 0\<rparr> # rest \<Longrightarrow> 0 \<le> travTimer s \<Longrightarrow>
         length rest + height t \<le> travCapacity s \<Longrightarrow>
         reaches dt (4 * count t) s rest (map ((@) p) (inorder_nodes t))"
proof (induction t arbitrary: s p rest)
  case Null
  then show ?case by simp
next
  case (Node l a r)
  note u = uncolored_child [OF Node.prems(1)]
  let ?f = "\<lambda>k. \<lparr>node = Some p, state = k\<rparr>"
  have A: "reaches dt (1 + 4 * count l) s (?f 1 # rest) (map ((@) (p @ [L])) (inorder_nodes l))"
  proof (rule child_phase [OF dt Node.prems(5) Node.prems(4), where d = L and k = 1])
    show "(mode s, 0, L, 1) \<in> {(TRAVERSING_IN, 0, L, 1), (TRAVERSING_IN, 2, R, 3),
               (TRAVERSING_PRE, 1, L, 2), (TRAVERSING_PRE, 2, R, 3),
               (TRAVERSING_POST, 0, L, 1), (TRAVERSING_POST, 1, R, 2)}"
      using Node.prems(3) by simp
    show "node_at (root s) p \<noteq> Null" using u(3) by simp
    show "uncolored (node_at (root s) (p @ [L])) = l" using u(1) by simp
    show "Suc (length rest) < travCapacity s" if "l \<noteq> Null"
      using that Node.prems(6) by (cases l) simp_all
    show "reaches dt (4 * count l) s' (?f 1 # rest) (map ((@) (p @ [L])) (inorder_nodes l))"
      if "l \<noteq> Null" "uncolored (node_at (root s') (p @ [L])) = l" "mode s' = mode s"
        "travStack s' = \<lparr>node = Some (p @ [L]), state = 0\<rparr> # ?f 1 # rest"
        "travTimer s' = 0" "travCapacity s' = travCapacity s" for s'
      using that Node.prems(3) Node.prems(6)
      by (intro Node.IH(1)) simp_all
    show "4 * count l = 0 \<and> map ((@) (p @ [L])) (inorder_nodes l) = []" if "l = Null"
      using that by simp
  qed
  have V: "reaches dt 1 s' (?f 2 # rest) [p]"
    if "mode s' = mode s" "travStack s' = ?f 1 # rest" "travTimer s' = 0"
      "uncolored (root s') = uncolored (root s)" for s'
    using that Node.prems(3) uncolored_child(3) [OF Node.prems(1) that(4)]
    by (intro step_visit [OF dt]) simp_all
  have B: "reaches dt (1 + 4 * count r) s' (?f 3 # rest) (map ((@) (p @ [R])) (inorder_nodes r))"
    if s': "mode s' = mode s" "travStack s' = ?f 2 # rest" "travTimer s' = 0"
      "travCapacity s' = travCapacity s" "uncolored (root s') = uncolored (root s)" for s'
  proof (rule child_phase [OF dt _ s'(2), where d = R and k = 3])
    note u' = uncolored_child [OF Node.prems(1) s'(5)]
    show "0 \<le> travTimer s'" using s'(3) by simp
    show "(mode s', 2, R, 3) \<in> {(TRAVERSING_IN, 0, L, 1), (TRAVERSING_IN, 2, R, 3),
               (TRAVERSING_PRE, 1, L, 2), (TRAVERSING_PRE, 2, R, 3),
               (TRAVERSING_POST, 0, L, 1), (TRAVERSING_POST, 1, R, 2)}"
      using Node.prems(3) s'(1) by simp
    show "node_at (root s') p \<noteq> Null" using u'(3) .
    show "uncolored (node_at (root s') (p @ [R])) = r" using u'(2) .
    show "Suc (length rest) < travCapacity s'" if "r \<noteq> Null"
      using that Node.prems(6) s'(4) by (cases r) simp_all
    show "reaches dt (4 * count r) s'' (?f 3 # rest) (map ((@) (p @ [R])) (inorder_nodes r))"
      if "r \<noteq> Null" "uncolored (node_at (root s'') (p @ [R])) = r" "mode s'' = mode s'"
        "travStack s'' = \<lparr>node = Some (p @ [R]), state = 0\<rparr> # ?f 3 # rest"
        "travTimer s'' = 0" "travCapacity s'' = travCapacity s'" for s''
      using that Node.prems(3) Node.prems(6) s'(1) s'(4)
      by (intro Node.IH(2)) simp_all
    show "4 * count r = 0 \<and> map ((@) (p @ [R])) (inorder_nodes r) = []" if "r = Null"
      using that by simp
  qed
  have P: "reaches dt 1 s' rest []"
    if "mode s' = mode s" "travStack s' = ?f 3 # rest" "travTimer s' = 0" for s'
    using that Node.prems(3) by (intro step_pop [OF dt]) simp_all
  have "reaches dt ((1 + 4 * count l) + (1 + ((1 + 4 * count r) + 1))) s rest
          (map ((@) (p @ [L])) (inorder_nodes l) @ ([p] @ (map ((@) (p @ [R])) (inorder_nodes r) @ [])))"
  proof (rule reaches_trans [OF A])
    fix s1 :: Globals
    assume s1: "mode s1 = mode s" "travStack s1 = ?f 1 # rest" "travTimer s1 = 0"
      "travCapacity s1 = travCapacity s" "uncolored (root s1) = uncolored (root s)"
    show "reaches dt (1 + ((1 + 4 * count r) + 1)) s1 rest
            ([p] @ (map ((@) (p @ [R])) (inorder_nodes r) @ []))"
    proof (rule reaches_trans [OF V [OF s1(1) s1(2) s1(3) s1(5)]])
      fix s2 :: Globals
      assume s2: "mode s2 = mode s1" "travStack s2 = ?f 2 # rest" "travTimer s2 = 0"
        "travCapacity s2 = travCapacity s1" "uncolored (root s2) = uncolored (root s1)"
      show "reaches dt ((1 + 4 * count r) + 1) s2 rest (map ((@) (p @ [R])) (inorder_nodes r) @ [])"
      proof (rule reaches_trans [OF B])
        show "mode s2 = mode s" "travStack s2 = ?f 2 # rest" "travTimer s2 = 0"
          "travCapacity s2 = travCapacity s" "uncolored (root s2) = uncolored (root s)"
          using s1 s2 by simp_all
      next
        fix s3 :: Globals
        assume "mode s3 = mode s2" "travStack s3 = ?f 3 # rest" "travTimer s3 = 0"
        then show "reaches dt 1 s3 rest []" using s1 s2 by (intro P) simp_all
      qed
    qed
  qed
  moreover have "(1 + 4 * count l) + (1 + ((1 + 4 * count r) + 1)) = 4 * count (Node l a r)"
    by simp
  moreover have "map ((@) (p @ [L])) (inorder_nodes l) @ ([p] @ (map ((@) (p @ [R])) (inorder_nodes r) @ []))
      = map ((@) p) (inorder_nodes (Node l a r))"
    by simp
  ultimately show ?case by metis
qed

lemma preorder_walk:
  assumes dt: "0.8 \<le> dt"
  shows "uncolored (node_at (root s) p) = t \<Longrightarrow> t \<noteq> Null \<Longrightarrow> mode s = TRAVERSING_PRE \<Longrightarrow>
         travStack s = \<lparr>node = Some p, state = 0\<rparr> # rest \<Longrightarrow> 0 \<le> travTimer s \<Longrightarrow>
         length rest + height t \<le> travCapacity s \<Longrightarrow>
         reaches dt (4 * count t) s rest (map ((@) p) (preorder_nodes t))"
proof (induction t arbitrary: s p rest)
  case Null
  then show ?case by simp
next
  case (Node l a r)
  let ?f = "\<lambda>k. \<lparr>node = Some p, state = k\<rparr>"
  let ?D = "{(TRAVERSING_IN, 0, L, 1), (TRAVERSING_IN, 2, R, 3),
               (TRAVERSING_PRE, 1, L, 2), (TRAVERSING_PRE, 2, R, 3),
               (TRAVERSING_POST, 0, L, 1), (TRAVERSING_POST, 1, R, 2)}"
  have V: "reaches dt 1 s (?f 1 # rest) [p]"
    using Node.prems(3) Node.prems(4) Node.prems(5) uncolored_child(3) [OF Node.prems(1) refl]
    by (intro step_visit [OF dt]) simp_all
  have A: "reaches dt (1 + 4 * count l) s' (?f 2 # rest) (map ((@) (p @ [L])) (preorder_nodes l))"
    if s': "mode s' = mode s" "travStack s' = ?f 1 # rest" "travTimer s' = 0"
      "travCapacity s' = travCapacity s" "uncolored (root s') = uncolored (root s)" for s'
  proof (rule child_phase [OF dt _ s'(2), where d = L and k = 2])
    note u' = uncolored_child [OF Node.prems(1) s'(5)]
    show "0 \<le> travTimer s'" using s'(3) by simp
    show "(mode s', 1, L, 2) \<in> ?D" using Node.prems(3) s'(1) by simp
    show "node_at (root s') p \<noteq> Null" using u'(3) .
    show "uncolored (node_at (root s') (p @ [L])) = l" using u'(1) .
    show "Suc (length rest) < travCapacity s'" if "l \<noteq> Null"
      using that Node.prems(6) s'(4) by (cases l) simp_all
    show "reaches dt (4 * count l) s'' (?f 2 # rest) (map ((@) (p @ [L])) (preorder_nodes l))"
      if "l \<noteq> Null" "uncolored (node_at (root s'') (p @ [L])) = l" "mode s'' = mode s'"
        "travStack s'' = \<lparr>node = Some (p @ [L]), state = 0\<rparr> # ?f 2 # rest"
        "travTimer s'' = 0" "travCapacity s'' = travCapacity s'" for s''
      using that Node.prems(3) Node.prems(6) s'(1) s'(4)
      by (intro Node.IH(1)) simp_all
    show "4 * count l = 0 \<and> map ((@) (p @ [L])) (preorder_nodes l) = []" if "l = Null"
      using that by simp
  qed
  have B: "reaches dt (1 + 4 * count r) s' (?f 3 # rest) (map ((@) (p @ [R])) (preorder_nodes r))"
    if s': "mode s' = mode s" "travStack s' = ?f 2 # rest" "travTimer s' = 0"
      "travCapacity s' = travCapacity s" "uncolored (root s') = uncolored (root s)" for s'
  proof (rule child_phase [OF dt _ s'(2), where d = R and k = 3])
    note u' = uncolored_child [OF Node.prems(1) s'(5)]
    show "0 \<le> travTimer s'" using s'(3) by simp
    show "(mode s', 2, R, 3) \<in> ?D" using Node.prems(3) s'(1) by simp
    show "node_at (root s') p \<noteq> Null" using u'(3) .
    show "uncolored (node_at (root s') (p @ [R])) = r" using u'(2) .
    show "Suc (length rest) < travCapacity s'" if "r \<noteq> Null"
      using that Node.prems(6) s'(4) by (cases r) simp_all
    show "reaches dt (4 * count r) s'' (?f 3 # rest) (map ((@) (p @ [R])) (preorder_nodes r))"
      if "r \<noteq> Null" "uncolored (node_at (root s'') (p @ [R])) = r" "mode s'' = mode s'"
        "travStack s'' = \<lparr>node = Some (p @ [R]), state = 0\<rparr> # ?f 3 # rest"
        "travTimer s'' = 0" "travCapacity s'' = travCapacity s'" for s''
      using that Node.prems(3) Node.prems(6) s'(1) s'(4)
      by (intro Node.IH(2)) simp_all
    show "4 * count r = 0 \<and> map ((@) (p @ [R])) (preorder_nodes r) = []" if "r = Null"
      using that by simp
  qed
  have P: "reaches dt 1 s' rest []"
    if "mode s' = mode s" "travStack s' = ?f 3 # rest" "travTimer s' = 0" for s'
    using that Node.prems(3) by (intro step_pop [OF dt]) simp_all
  have "reaches dt (1 + ((1 + 4 * count l) + ((1 + 4 * count r) + 1))) s rest
          ([p] @ (map ((@) (p @ [L])) (preorder_nodes l) @ (map ((@) (p @ [R])) (preorder_nodes r) @ [])))"
  proof (rule reaches_trans [OF V])
    fix s1 :: Globals
    assume s1: "mode s1 = mode s" "travStack s1 = ?f 1 # rest" "travTimer s1 = 0"
      "travCapacity s1 = travCapacity s" "uncolored (root s1) = uncolored (root s)"
    show "reaches dt ((1 + 4 * count l) + ((1 + 4 * count r) + 1)) s1 rest
            (map ((@) (p @ [L])) (preorder_nodes l) @ (map ((@) (p @ [R])) (preorder_nodes r) @ []))"
    proof (rule reaches_trans [OF A [OF s1]])
      fix s2 :: Globals
      assume s2: "mode s2 = mode s1" "travStack s2 = ?f 2 # rest" "travTimer s2 = 0"
        "travCapacity s2 = travCapacity s1" "uncolored (root s2) = uncolored (root s1)"
      show "reaches dt ((1 + 4 * count r) + 1) s2 rest (map ((@) (p @ [R])) (preorder_nodes r) @ [])"
      proof (rule reaches_trans [OF B])
        show "mode s2 = mode s" "travStack s2 = ?f 2 # rest" "travTimer s2 = 0"
          "travCapacity s2 = travCapacity s" "uncolored (root s2) = uncolored (root s)"
          using s1 s2 by simp_all
      next
        fix s3 :: Globals
        assume "mode s3 = mode s2" "travStack s3 = ?f 3 # rest" "travTimer s3 = 0"
        then show "reaches dt 1 s3 rest []" using s1 s2 by (intro P) simp_all
      qed
    qed
  qed
  moreover have "1 + ((1 + 4 * count l) + ((1 + 4 * count r) + 1)) = 4 * count (Node l a r)"
    by simp
  moreover have "[p] @ (map ((@) (p @ [L])) (preorder_nodes l) @ (map ((@) (p @ [R])) (preorder_nodes r) @ []))
      = map ((@) p) (preorder_nodes (Node l a r))"
    by simp
  ultimately show ?case by metis
qed

lemma postorder_walk:
  assumes dt: "0.8 \<le> dt"
  shows "uncolored (node_at (root s) p) = t \<Longrightarrow> t \<noteq> Null \<Longrightarrow> mode s = TRAVERSING_POST \<Longrightarrow>
         travStack s = \<lparr>node = Some p, state = 0\<rparr> # rest \<Longrightarrow> 0 \<le> travTimer s \<Longrightarrow>
         length rest + height t \<le> travCapacity s \<Longrightarrow>
         reaches dt (4 * count t) s rest (map ((@) p) (postorder_nodes t))"
proof (induction t arbitrary: s p rest)
  case Null
  then show ?case by simp
next
  case (Node l a r)
  let ?f = "\<lambda>k. \<lparr>node = Some p, state = k\<rparr>"
  let ?D = "{(TRAVERSING_IN, 0, L, 1), (TRAVERSING_IN, 2, R, 3),
               (TRAVERSING_PRE, 1, L, 2), (TRAVERSING_PRE, 2, R, 3),
               (TRAVERSING_POST, 0, L, 1), (TRAVERSING_POST, 1, R, 2)}"
  have A: "reaches dt (1 + 4 * count l) s' (?f 1 # rest) (map ((@) (p @ [L])) (postorder_nodes l))"
    if s': "mode s' = mode s" "travStack s' = ?f 0 # rest" "0 \<le> travTimer s'"
      "travCapacity s' = travCapacity s" "uncolored (root s') = uncolored (root s)" for s'
  proof (rule child_phase [OF dt s'(3) s'(2), where d = L and k = 1])
    note u' = uncolored_child [OF Node.prems(1) s'(5)]
    show "(mode s', 0, L, 1) \<in> ?D" using Node.prems(3) s'(1) by simp
    show "node_at (root s') p \<noteq> Null" using u'(3) .
    show "uncolored (node_at (root s') (p @ [L])) = l" using u'(1) .
    show "Suc (length rest) < travCapacity s'" if "l \<noteq> Null"
      using that Node.prems(6) s'(4) by (cases l) simp_all
    show "reaches dt (4 * count l) s'' (?f 1 # rest) (map ((@) (p @ [L])) (postorder_nodes l))"
      if "l \<noteq> Null" "uncolored (node_at (root s'') (p @ [L])) = l" "mode s'' = mode s'"
        "travStack s'' = \<lparr>node = Some (p @ [L]), state = 0\<rparr> # ?f 1 # rest"
        "travTimer s'' = 0" "travCapacity s'' = travCapacity s'" for s''
      using that Node.prems(3) Node.prems(6) s'(1) s'(4)
      by (intro Node.IH(1)) simp_all
    show "4 * count l = 0 \<and> map ((@) (p @ [L])) (postorder_nodes l) = []" if "l = Null"
      using that by simp
  qed
  have B: "reaches dt (1 + 4 * count r) s' (?f 2 # rest) (map ((@) (p @ [R])) (postorder_nodes r))"
    if s': "mode s' = mode s" "travStack s' = ?f 1 # rest" "travTimer s' = 0"
      "travCapacity s' = travCapacity s" "uncolored (root s') = uncolored (root s)" for s'
  proof (rule child_phase [OF dt _ s'(2), where d = R and k = 2])
    note u' = uncolored_child [OF Node.prems(1) s'(5)]
    show "0 \<le> travTimer s'" using s'(3) by simp
    show "(mode s', 1, R, 2) \<in> ?D" using Node.prems(3) s'(1) by simp
    show "node_at (root s') p \<noteq> Null" using u'(3) .
    show "uncolored (node_at (root s') (p @ [R])) = r" using u'(2) .
    show "Suc (length rest) < travCapacity s'" if "r \<noteq> Null"
      using that Node.prems(6) s'(4) by (cases r) simp_all
    show "reaches dt (4 * count r) s'' (?f 2 # rest) (map ((@) (p @ [R])) (postorder_nodes r))"
      if "r \<noteq> Null" "uncolored (node_at (root s'') (p @ [R])) = r" "mode s'' = mode s'"
        "travStack s'' = \<lparr>node = Some (p @ [R]), state = 0\<rparr> # ?f 2 # rest"
        "travTimer s'' = 0" "travCapacity s'' = travCapacity s'" for s''
      using that Node.prems(3) Node.prems(6) s'(1) s'(4)
      by (intro Node.IH(2)) simp_all
    show "4 * count r = 0 \<and> map ((@) (p @ [R])) (postorder_nodes r) = []" if "r = Null"
      using that by simp
  qed
  have V: "reaches dt 1 s' (?f 3 # rest) [p]"
    if "mode s' = mode s" "travStack s' = ?f 2 # rest" "travTimer s' = 0"
      "uncolored (root s') = uncolored (root s)" for s'
    using that Node.prems(3) uncolored_child(3) [OF Node.prems(1) that(4)]
    by (intro step_visit [OF dt]) simp_all
  have P: "reaches dt 1 s' rest []"
    if "mode s' = mode s" "travStack s' = ?f 3 # rest" "travTimer s' = 0" for s'
    using that Node.prems(3) by (intro step_pop [OF dt]) simp_all
  have A0: "reaches dt (1 + 4 * count l) s (?f 1 # rest) (map ((@) (p @ [L])) (postorder_nodes l))"
    using Node.prems(4) Node.prems(5) by (intro A) simp_all
  have "reaches dt ((1 + 4 * count l) + ((1 + 4 * count r) + (1 + 1))) s rest
          (map ((@) (p @ [L])) (postorder_nodes l) @ (map ((@) (p @ [R])) (postorder_nodes r) @ ([p] @ [])))"
  proof (rule reaches_trans [OF A0])
    fix s1 :: Globals
    assume s1: "mode s1 = mode s" "travStack s1 = ?f 1 # rest" "travTimer s1 = 0"
      "travCapacity s1 = travCapacity s" "uncolored (root s1) = uncolored (root s)"
    show "reaches dt ((1 + 4 * count r) + (1 + 1)) s1 rest
            (map ((@) (p @ [R])) (postorder_nodes r) @ ([p] @ []))"
    proof (rule reaches_trans [OF B [OF s1]])
      fix s2 :: Globals
      assume s2: "mode s2 = mode s1" "travStack s2 = ?f 2 # rest" "travTimer s2 = 0"
        "travCapacity s2 = travCapacity s1" "uncolored (root s2) = uncolored (root s1)"
      show "reaches dt (1 + 1) s2 rest ([p] @ [])"
      proof (rule reaches_trans [OF V])
        show "mode s2 = mode s" "travStack s2 = ?f 2 # rest" "travTimer s2 = 0"
          "uncolored (root s2) = uncolored (root s)"
          using s1 s2 by simp_all
      next
        fix s3 :: Globals
        assume "mode s3 = mode s2" "travStack s3 = ?f 3 # rest" "travTimer s3 = 0"
        then show "reaches dt 1 s3 rest []" using s1 s2 by (intro P) simp_all
      qed
    qed
  qed
  moreover have "(1 + 4 * count l) + ((1 + 4 * count r) + (1 + 1)) = 4 * count (Node l a r)"
    by simp
  moreover have "map ((@) (p @ [L])) (postorder_nodes l) @ (map ((@) (p @ [R])) (postorder_nodes r) @ ([p] @ []))
      = map ((@) p) (postorder_nodes (Node l a r))"
    by simp
  ultimately show ?case by metis
qed

lemma uncolored_map_color [simp]: "uncolored (map_nodes (\<lambda>a. a\<lparr>n_color := c\<rparr>) t) = uncolored t"
  by (induction t) simp_all

lemma start_traversal_result:
  assumes "start_traversal m steps s = Inr s0"
  shows "mode s0 = m \<and> travStack s0 = [\<lparr>node = root_ptr (root s), state = 0\<rparr>] \<and>
         travTimer s0 = 0 \<and> travCapacity s0 = max 1 (travCapacity s) \<and> visited s0 = [] \<and>
         uncolored (root s0) = uncolored (root s)"
  using assms
  by (auto simp: start_traversal_def push_back_def vector_grow_def dest!: ResetTreeColors_result)

lemma key_at_uncolored: "n_value (dat (node_at (uncolored t) q)) = n_value (dat (node_at t q))"
  by (induction t q rule: node_at.induct) (simp_all, (case_tac t; simp))

lemma count_uncolored [simp]: "count (uncolored t) = count t"
  by (induction t) simp_all

lemma height_uncolored [simp]: "height (uncolored t) = height t"
  by (induction t) simp_all

lemma inorder_uncolored [simp]: "inorder (uncolored t) = inorder t"
  by (induction t) simp_all

lemma preorder_uncolored [simp]: "preorder (uncolored t) = preorder t"
  by (induction t) simp_all

lemma postorder_uncolored [simp]: "postorder (uncolored t) = postorder t"
  by (induction t) simp_all

lemma keys_inorder_nodes: "map (\<lambda>q. n_value (dat (node_at t q))) (inorder_nodes t) = inorder t"
  by (induction t) (simp_all add: comp_def)

lemma keys_preorder_nodes: "map (\<lambda>q. n_value (dat (node_at t q))) (preorder_nodes t) = preorder t"
  by (induction t) (simp_all add: comp_def)

lemma keys_postorder_nodes: "map (\<lambda>q. n_value (dat (node_at t q))) (postorder_nodes t) = postorder t"
  by (induction t) (simp_all add: comp_def)

lemma traversal_last_frame:
  assumes r: "reaches dt n s [] vs"
    and m: "mode s \<in> {TRAVERSING_IN, TRAVERSING_PRE, TRAVERSING_POST}"
  shows "\<exists>s'. frames (replicate (n + 1) dt) s = Inr s' \<and> mode s' = IDLE \<and> travStack s' = [] \<and>
           visited s' = visited s @ vs \<and> uncolored (root s') = uncolored (root s)"
proof -
  from r obtain s1 where s1: "frames (replicate n dt) s = Inr s1" "mode s1 = mode s"
    "travStack s1 = []" "visited s1 = visited s @ vs" "uncolored (root s1) = uncolored (root s)"
    unfolding reaches_def by blast
  let ?s' = "s1\<lparr>mode := IDLE, travHighlight := None, edgeA := None, edgeB := None\<rparr>"
  from s1(2) s1(3) m have f1: "frames (replicate 1 dt) s1 = Inr ?s'"
    by (auto simp: Update_def UpdateTraversal_def)
  have "frames (replicate (n + 1) dt) s =
      (case frames (replicate n dt) s of Inl e \<Rightarrow> Inl e | Inr u \<Rightarrow> frames (replicate 1 dt) u)"
    by (simp only: replicate_add frames_append)
  also have "\<dots> = Inr ?s'" by (simp only: s1(1) sum.case f1)
  finally have "frames (replicate (n + 1) dt) s = Inr ?s'" .
  moreover have "mode ?s' = IDLE \<and> travStack ?s' = [] \<and> visited ?s' = visited s @ vs \<and>
      uncolored (root ?s') = uncolored (root s)"
    using s1 by simp
  ultimately show ?thesis by blast
qed

lemma visited_keys_uncolored:
  assumes "uncolored (root s') = uncolored t" and "visited s' = vs"
  shows "visited_keys s' = map (\<lambda>q. n_value (dat (node_at t q))) vs"
proof -
  have "n_value (dat (node_at (root s') q)) = n_value (dat (node_at t q))" for q
    using assms(1) by (metis key_at_uncolored)
  with assms(2) show ?thesis by (simp add: visited_keys_def)
qed

lemma uncolored_idem [simp]: "uncolored (uncolored t) = uncolored t"
  by (induction t) simp_all

lemma map_append_Nil: "map ((@) []) xs = xs"
  by (induction xs) simp_all

lemma engine_start:
  assumes ne: "root s \<noteq> Null" and st: "start_traversal m steps s = Inr s0"
    and cap: "height (root s) \<le> max 1 (travCapacity s)"
  shows "uncolored (node_at (root s0) []) = uncolored (root s)" and "uncolored (root s) \<noteq> Null"
    and "mode s0 = m" and "travStack s0 = \<lparr>node = Some [], state = 0\<rparr> # []"
    and "0 \<le> travTimer s0" and "length ([] :: TravFrame list) + height (uncolored (root s)) \<le> travCapacity s0"
    and "visited s0 = []"
  using start_traversal_result [OF st] ne cap by (simp_all add: root_ptr_def)

lemma engine_inorder:
  assumes dt: "0.8 \<le> dt" and ne: "root s \<noteq> Null" and st: "StartTraverseIn s = Inr s0"
    and cap: "height (root s) \<le> max 1 (travCapacity s)"
  shows "\<exists>s'. frames (replicate (4 * count (root s) + 1) dt) s0 = Inr s' \<and> mode s' = IDLE \<and>
           travStack s' = [] \<and> visited_keys s' = inorder (root s)"
proof -
  let ?t = "uncolored (root s)"
  from st have st': "start_traversal TRAVERSING_IN
       [''In-order traversal:'', ''Go Left'', ''Visit Node'', ''Go Right''] s = Inr s0"
    by (simp add: StartTraverseIn_def)
  note e = engine_start [OF ne st' cap]
  from inorder_walk [OF dt e(1) e(2) e(3) e(4) e(5) e(6)]
  have w: "reaches dt (4 * count (root s)) s0 [] (inorder_nodes ?t)"
    by (simp add: map_append_Nil)
  have "mode s0 \<in> {TRAVERSING_IN, TRAVERSING_PRE, TRAVERSING_POST}" using e(3) by simp
  from traversal_last_frame [OF w this] e(7)
  obtain s' where s': "frames (replicate (4 * count (root s) + 1) dt) s0 = Inr s'" "mode s' = IDLE"
    "travStack s' = []" "visited s' = inorder_nodes ?t" "uncolored (root s') = uncolored (root s0)"
    by auto
  from e(1) s'(5) have "uncolored (root s') = uncolored ?t" by simp
  from visited_keys_uncolored [OF this s'(4)]
  have "visited_keys s' = inorder (root s)" by (simp add: keys_inorder_nodes)
  with s' show ?thesis by auto
qed

lemma engine_preorder:
  assumes dt: "0.8 \<le> dt" and ne: "root s \<noteq> Null" and st: "StartTraversePre s = Inr s0"
    and cap: "height (root s) \<le> max 1 (travCapacity s)"
  shows "\<exists>s'. frames (replicate (4 * count (root s) + 1) dt) s0 = Inr s' \<and> mode s' = IDLE \<and>
           travStack s' = [] \<and> visited_keys s' = preorder (root s)"
proof -
  let ?t = "uncolored (root s)"
  from st have st': "start_traversal TRAVERSING_PRE
       [''Pre-order traversal:'', ''Visit Node'', ''Go Left'', ''Go Right''] s = Inr s0"
    by (simp add: StartTraversePre_def)
  note e = engine_start [OF ne st' cap]
  from preorder_walk [OF dt e(1) e(2) e(3) e(4) e(5) e(6)]
  have w: "reaches dt (4 * count (root s)) s0 [] (preorder_nodes ?t)"
    by (simp add: map_append_Nil)
  have "mode s0 \<in> {TRAVERSING_IN, TRAVERSING_PRE, TRAVERSING_POST}" using e(3) by simp
  from traversal_last_frame [OF w this] e(7)
  obtain s' where s': "frames (replicate (4 * count (root s) + 1) dt) s0 = Inr s'" "mode s' = IDLE"
    "travStack s' = []" "visited s' = preorder_nodes ?t" "uncolored (root s') = uncolored (root s0)"
    by auto
  from e(1) s'(5) have "uncolored (root s') = uncolored ?t" by simp
  from visited_keys_uncolored [OF this s'(4)]
  have "visited_keys s' = preorder (root s)" by (simp add: keys_preorder_nodes)
  with s' show ?thesis by auto
qed

lemma engine_postorder:
  assumes dt: "0.8 \<le> dt" and ne: "root s \<noteq> Null" and st: "StartTraversePost s = Inr s0"
    and cap: "height (root s) \<le> max 1 (travCapacity s)"
  shows "\<exists>s'. frames (replicate (4 * count (root s) + 1) dt) s0 = Inr s' \<and> mode s' = IDLE \<and>
           travStack s' = [] \<and> visited_keys s' = postorder (root s)"
proof -
  let ?t = "uncolored (root s)"
  from st have st': "start_traversal TRAVERSING_POST
       [''Post-order traversal:'', ''Go Left'', ''Go Right'', ''Visit Node''] s = Inr s0"
    by (simp add: StartTraversePost_def)
  note e = engine_start [OF ne st' cap]
  from postorder_walk [OF dt e(1) e(2) e(3) e(4) e(5) e(6)]
  have w: "reaches dt (4 * count (root s)) s0 [] (postorder_nodes ?t)"
    by (simp add: map_append_Nil)
  have "mode s0 \<in> {TRAVERSING_IN, TRAVERSING_PRE, TRAVERSING_POST}" using e(3) by simp
  from traversal_last_frame [OF w this] e(7)
  obtain s' where s': "frames (replicate (4 * count (root s) + 1) dt) s0 = Inr s'" "mode s' = IDLE"
    "travStack s' = []" "visited s' = postorder_nodes ?t" "uncolored (root s') = uncolored (root s0)"
    by auto
  from e(1) s'(5) have "uncolored (root s') = uncolored ?t" by simp
  from visited_keys_uncolored [OF this s'(4)]
  have "visited_keys s' = postorder (root s)" by (simp add: keys_postorder_nodes)
  with s' show ?thesis by auto
qed

section \<open>Properties of the delete animation\<close>

text \<open>
  Before the commit frame the delete animation changes no key and no link of the tree,
  and its phase index never decreases.
\<close>

lemma keys_update_at: "(\<And>a. n_value (f a) = n_value a) \<Longrightarrow> keys (update_at f p t) = keys t"
  by (induction f p t rule: update_at.induct) simp_all

lemma count_update_at: "count (update_at f p t) = count t"
  by (induction f p t rule: update_at.induct) simp_all

lemma write_node_keys:
  assumes "write_node f p s = Inr s'" and "\<And>a. n_value (f a) = n_value a"
  shows "keys (root s') = keys (root s) \<and> count (root s') = count (root s) \<and>
         algoStepIndex s' = algoStepIndex s \<and> mode s' = mode s \<and> inputValue s' = inputValue s \<and>
         delNode s' = delNode s"
  using assms by (auto simp: write_node_def keys_update_at count_update_at split: if_splits)

lemma advance_algo_index:
  "algoStepIndex s \<le> algoStepIndex (advance_algo dt s) \<and>
   algoStepIndex (advance_algo dt s) \<le> algoStepIndex s + 1"
  by (simp add: advance_algo_def Let_def)

lemma UpdateDelete_before_commit:
  assumes d: "delNode s = Some p" and i: "algoStepIndex (advance_algo dt s) \<noteq> 4"
    and u: "UpdateDelete dt s = Inr s'"
  shows "keys (root s') = keys (root s) \<and> count (root s') = count (root s) \<and> mode s' = mode s \<and>
         algoStepIndex s \<le> algoStepIndex s'"
proof -
  let ?s1 = "advance_algo dt s"
  note a = advance_algo_index [of s dt]
  consider "algoStepIndex ?s1 = 1" | "algoStepIndex ?s1 = 2" | "algoStepIndex ?s1 = 3"
    | "algoStepIndex ?s1 \<notin> {1, 2, 3, 4}"
    using i by auto
  then show ?thesis
  proof cases
    case 1
    let ?s2 = "?s1\<lparr>delFlashTimer := delFlashTimer ?s1 + dt\<rparr>"
    let ?f = "\<lambda>a. a\<lparr>n_color := (if (delFlashCount ?s2 + 1) mod 2 = 0 then RED else LIGHTGRAY)\<rparr>"
    from u d 1 obtain s3 where
      w: "(if delFlashTimer ?s2 > 0.12
           then write_node ?f p (?s2\<lparr>delFlashTimer := 0, delFlashCount := delFlashCount ?s2 + 1\<rparr>)
           else Inr ?s2) = Inr s3"
      and s': "s' = (if delFlashCount s3 > 6 then s3\<lparr>algoStepIndex := 2\<rparr> else s3)"
      by (auto simp: UpdateDelete_def Let_def split: sum.splits if_splits)
    have "keys (root s3) = keys (root s) \<and> count (root s3) = count (root s) \<and>
          algoStepIndex s3 = 1 \<and> mode s3 = mode s"
    proof (cases "delFlashTimer ?s2 > 0.12")
      case True
      with w have "write_node ?f p (?s2\<lparr>delFlashTimer := 0, delFlashCount := delFlashCount ?s2 + 1\<rparr>) = Inr s3"
        by simp
      from write_node_keys [OF this] 1 show ?thesis by simp
    next
      case False
      with w 1 show ?thesis by auto
    qed
    with s' a 1 show ?thesis by auto
  next
    case 2
    from u d 2 obtain s2 where
      w: "write_node (\<lambda>a. a\<lparr>n_y := n_y a + dt * 300\<rparr>) p ?s1 = Inr s2"
      and s': "s' = (if n_y (dat (node_at (root s2) p)) > 900 then s2\<lparr>algoStepIndex := 3\<rparr> else s2)"
      by (auto simp: UpdateDelete_def Let_def split: sum.splits if_splits)
    from write_node_keys [OF w] 2 s' a show ?thesis by auto
  next
    case 3
    from u d 3 obtain s2 where
      w: "write_node (\<lambda>a. a\<lparr>n_alpha := n_alpha a - dt * 3\<rparr>) p ?s1 = Inr s2"
      and s': "s' = (if n_alpha (dat (node_at (root s2) p)) \<le> 0 then s2\<lparr>algoStepIndex := 4\<rparr> else s2)"
      by (auto simp: UpdateDelete_def Let_def split: sum.splits if_splits)
    from write_node_keys [OF w] 3 s' a show ?thesis by auto
  next
    case 4
    with u d i have "s' = ?s1" by (auto simp: UpdateDelete_def Let_def)
    with a show ?thesis by simp
  qed
qed

text \<open>
  The flash phase never reaches its own exit: in every run of frames with non-negative
  frame times the counter of colour toggles stays at 5 or below, so the test
  \<^verbatim>\<open>delFlashCount > 6\<close> never holds and the phase always ends by the step broadcaster.
\<close>

lemma UpdateDelete_flash:
  assumes "delNode s = Some p" and "algoStepIndex (advance_algo dt s) = 1"
    and "UpdateDelete dt s = Inr s'"
  shows "algoSteps s' = algoSteps s \<and> mode s' = mode s \<and>
         algoTimer s' = algoTimer (advance_algo dt s) \<and>
         (if delFlashTimer s + dt > 0.12
          then delFlashCount s' = delFlashCount s + 1 \<and> delFlashTimer s' = 0
          else delFlashCount s' = delFlashCount s \<and> delFlashTimer s' = delFlashTimer s + dt) \<and>
         algoStepIndex s' = (if delFlashCount s' > 6 then 2 else 1)"
proof (cases "delFlashTimer s + dt > 0.12")
  case True
  show ?thesis
  proof (cases "node_at (root s) p = Null")
    case n: True
    with assms True show ?thesis by (simp add: UpdateDelete_def Let_def write_node_def)
  next
    case n: False
    with assms True show ?thesis
      by (cases "delFlashCount s + 1 > 6") (auto simp: UpdateDelete_def Let_def write_node_def)
  qed
next
  case False
  with assms show ?thesis
    by (cases "delFlashCount s > 6") (auto simp: UpdateDelete_def Let_def)
qed

lemma UpdateDelete_drop_fade:
  assumes "delNode s = Some p" and "algoStepIndex (advance_algo dt s) \<in> {2, 3}"
    and "UpdateDelete dt s = Inr s'"
  shows "algoSteps s' = algoSteps s \<and> mode s' = mode s \<and> delFlashCount s' = delFlashCount s \<and>
         algoStepIndex s' \<in> {2, 3, 4}"
proof (cases "node_at (root s) p = Null")
  case True
  with assms show ?thesis by (auto simp: UpdateDelete_def Let_def write_node_def)
next
  case False
  from assms(2) consider "algoStepIndex (advance_algo dt s) = 2" | "algoStepIndex (advance_algo dt s) = 3"
    by auto
  then show ?thesis
  proof cases
    case 1
    with assms False show ?thesis
      by (cases "n_y (dat (node_at (update_at (\<lambda>a. a\<lparr>n_y := n_y a + dt * 300\<rparr>) p (root s)) p)) > 900")
         (auto simp: UpdateDelete_def Let_def write_node_def)
  next
    case 2
    with assms False show ?thesis
      by (cases "n_alpha (dat (node_at (update_at (\<lambda>a. a\<lparr>n_alpha := n_alpha a - dt * 3\<rparr>) p (root s)) p)) \<le> 0")
         (auto simp: UpdateDelete_def Let_def write_node_def)
  qed
qed

lemma UpdateDelete_other:
  assumes "delNode s = Some p" and "algoStepIndex (advance_algo dt s) \<notin> {1, 2, 3}"
    and "UpdateDelete dt s = Inr s'"
  shows "algoSteps s' = algoSteps s \<and> mode s' \<in> {mode s, IDLE} \<and> delFlashCount s' = delFlashCount s \<and>
         delFlashTimer s' = delFlashTimer s \<and> algoStepIndex s' = algoStepIndex (advance_algo dt s) \<and>
         algoTimer s' = algoTimer (advance_algo dt s)"
  using assms by (auto simp: UpdateDelete_def Let_def split: if_splits)

lemma advance_algo_cases:
  assumes "length (algoSteps s) = 5" and "0 \<le> algoStepIndex s" and "algoStepIndex s \<le> 4"
  shows "algoSteps (advance_algo dt s) = algoSteps s \<and>
         (if algoTimer s + dt > 0.5 \<and> algoStepIndex s < 4
          then algoStepIndex (advance_algo dt s) = algoStepIndex s + 1 \<and> algoTimer (advance_algo dt s) = 0
          else algoStepIndex (advance_algo dt s) = algoStepIndex s \<and>
               algoTimer (advance_algo dt s) = algoTimer s + dt)"
  using assms by (simp add: advance_algo_def Let_def algoSpeed_def)

lemma flash_inv_start: "flash_inv (StartDeleteAnimation s)"
  by (simp add: flash_inv_def StartDeleteAnimation_def Let_def)

lemma count_le_5:
  assumes "0.12 * of_int c + f \<le> t + (0.12 :: rat)" and "0 \<le> f" and "t \<le> 0.5"
  shows "c \<le> (5 :: int)"
proof (rule ccontr)
  assume "\<not> c \<le> 5"
  then have "6 \<le> c" by simp
  then have "(6 :: rat) \<le> of_int c" by (metis of_int_le_iff of_int_numeral)
  with assms show False by simp
qed

lemma flash_inv_step:
  assumes inv: "flash_inv s" and dt: "0 \<le> dt" and u: "Update dt s = Inr s'"
  shows "flash_inv s'"
proof (cases "mode s = DELETING")
  case False
  with inv u show ?thesis by (auto simp: flash_inv_def Update_def)
next
  case True
  with u have ud: "UpdateDelete dt s = Inr s'" by (simp add: Update_def)
  show ?thesis
  proof (cases "delNode s")
    case None
    with ud inv show ?thesis by (auto simp: UpdateDelete_def flash_inv_def)
  next
    case (Some p)
    let ?s1 = "advance_algo dt s"
    from inv have len: "length (algoSteps s) = 5" by (simp add: flash_inv_def)
    from inv have rng: "0 \<le> algoStepIndex s" "algoStepIndex s \<le> 4" by (auto simp: flash_inv_def)
    note adv = advance_algo_cases [OF len rng, of dt]
    from inv consider
      (zero) "algoStepIndex s = 0" "delFlashCount s = 0" "delFlashTimer s = 0"
      | (one) "algoStepIndex s = 1" "0 \<le> delFlashTimer s" "0 \<le> delFlashCount s" "algoTimer s \<le> 0.5"
          "0.12 * of_int (delFlashCount s) + delFlashTimer s \<le> algoTimer s + 0.12"
      | (late) "algoStepIndex s \<in> {2, 3, 4}" "delFlashCount s \<le> 5"
      by (auto simp: flash_inv_def)
    then show ?thesis
    proof cases
      case zero
      show ?thesis
      proof (cases "algoTimer s + dt > 0.5")
        case False
        with adv zero have "algoStepIndex ?s1 \<notin> {1, 2, 3}" "algoStepIndex ?s1 = 0" by simp_all
        from UpdateDelete_other [OF Some this(1) ud] this(2) zero True len
        show ?thesis by (auto simp: flash_inv_def)
      next
        case adv1: True
        with adv zero have i: "algoStepIndex ?s1 = 1" and t: "algoTimer ?s1 = 0" by simp_all
        note f = UpdateDelete_flash [OF Some i ud]
        show ?thesis
        proof (cases "delFlashTimer s + dt > 0.12")
          case True
          with f zero t len \<open>mode s = DELETING\<close> show ?thesis by (simp add: flash_inv_def)
        next
          case False
          with f zero t len dt \<open>mode s = DELETING\<close> show ?thesis by (simp add: flash_inv_def)
        qed
      qed
    next
      case one
      show ?thesis
      proof (cases "algoTimer s + dt > 0.5")
        case adv1: True
        with adv one have i: "algoStepIndex ?s1 \<in> {2, 3}" by simp
        from one have c5: "delFlashCount s \<le> 5"
          by (intro count_le_5 [of _ "delFlashTimer s" "algoTimer s"])
        from UpdateDelete_drop_fade [OF Some i ud] c5 True len show ?thesis
          by (simp add: flash_inv_def)
      next
        case False
        with adv one have i: "algoStepIndex ?s1 = 1" and t: "algoTimer ?s1 = algoTimer s + dt"
          by simp_all
        note f = UpdateDelete_flash [OF Some i ud]
        show ?thesis
        proof (cases "delFlashTimer s + dt > 0.12")
          case tog: True
          with f have c: "delFlashCount s' = delFlashCount s + 1" and ft: "delFlashTimer s' = 0"
            by simp_all
          have b: "0.12 * of_int (delFlashCount s + 1) + 0 \<le> (algoTimer s + dt) + 0.12"
            using one tog by simp
          have "delFlashCount s + 1 \<le> 5"
          proof (rule count_le_5 [of _ 0 "algoTimer s + dt"])
            show "0.12 * of_int (delFlashCount s + 1) + 0 \<le> algoTimer s + dt + 0.12" by (rule b)
            show "algoTimer s + dt \<le> 0.5" using False by simp
          qed simp
          with f c ft t b one False len \<open>mode s = DELETING\<close> show ?thesis
            by (simp add: flash_inv_def)
        next
          case nt: False
          with f have c: "delFlashCount s' = delFlashCount s"
            and ft: "delFlashTimer s' = delFlashTimer s + dt" by simp_all
          have b: "0.12 * of_int (delFlashCount s) + (delFlashTimer s + dt) \<le> (algoTimer s + dt) + 0.12"
            using one by simp
          have "delFlashCount s \<le> 5"
          proof (rule count_le_5 [of _ "delFlashTimer s + dt" "algoTimer s + dt"])
            show "0.12 * of_int (delFlashCount s) + (delFlashTimer s + dt) \<le> algoTimer s + dt + 0.12"
              by (rule b)
            show "0 \<le> delFlashTimer s + dt" using one dt by simp
            show "algoTimer s + dt \<le> 0.5" using False by simp
          qed
          with f c ft t b one dt False len \<open>mode s = DELETING\<close> show ?thesis
            by (simp add: flash_inv_def)
        qed
      qed
    next
      case late
      with adv have "algoStepIndex ?s1 \<in> {2, 3} \<or> algoStepIndex ?s1 = 4"
        by (auto split: if_splits)
      then show ?thesis
      proof
        assume i: "algoStepIndex ?s1 \<in> {2, 3}"
        from UpdateDelete_drop_fade [OF Some i ud] late True len show ?thesis
          by (simp add: flash_inv_def)
      next
        assume i: "algoStepIndex ?s1 = 4"
        then have "algoStepIndex ?s1 \<notin> {1, 2, 3}" by simp
        from UpdateDelete_other [OF Some this ud] i late True len show ?thesis
          by (auto simp: flash_inv_def)
      qed
    qed
  qed
qed

lemma flash_inv_frames:
  "flash_inv s \<Longrightarrow> \<forall>dt \<in> set dts. 0 \<le> dt \<Longrightarrow> frames dts s = Inr s' \<Longrightarrow> flash_inv s'"
proof (induction dts arbitrary: s)
  case Nil
  then show ?case by simp
next
  case (Cons dt dts)
  from Cons.prems(3) obtain s1 where u: "Update dt s = Inr s1" and f: "frames dts s1 = Inr s'"
    by (auto split: sum.splits)
  from Cons.prems(2) have "0 \<le> dt" by simp
  with Cons.prems(1) have "flash_inv s1" using u by (rule flash_inv_step)
  moreover from Cons.prems(2) have "\<forall>dt \<in> set dts. 0 \<le> dt" by simp
  ultimately show ?case using f by (rule Cons.IH)
qed

lemma flash_never_completes:
  assumes "\<forall>dt \<in> set dts. 0 \<le> dt" and "frames dts (StartDeleteAnimation s) = Inr s'"
  shows "delFlashCount s' \<le> 5"
proof -
  from flash_inv_frames [OF flash_inv_start assms] have i: "flash_inv s'" .
  then consider "delFlashCount s' = 0"
    | "0 \<le> delFlashTimer s'" "algoTimer s' \<le> 0.5"
      "0.12 * of_int (delFlashCount s') + delFlashTimer s' \<le> algoTimer s' + 0.12"
    | "delFlashCount s' \<le> 5"
    by (auto simp: flash_inv_def)
  then show ?thesis
  proof cases
    case 2
    then show ?thesis by (intro count_le_5 [of _ "delFlashTimer s'" "algoTimer s'"])
  qed simp_all
qed

text \<open>The run of the input-change example ends in the state named after it.\<close>

lemma retarget_run_state: "retarget_run = Inr retarget_state"
  by code_simp

section \<open>The claims\<close>

text \<open>
  Claim C1. The traversal engine, started and stepped until its stack is empty, marks
  the nodes in the order of the recursive traversal, for every tree, the single-node and
  the empty tree included. The code does so on a single node. On the empty tree every
  start function pushes a frame for \<^verbatim>\<open>nullptr\<close>, which the first step dereferences. On a
  tree whose root has a child, in a fresh program, the first \<^verbatim>\<open>push_back\<close> of a child
  frame reallocates the frame vector, and the assignment to \<^verbatim>\<open>frame.state\<close> that follows
  writes through the invalidated reference.
\<close>

theorem traversal_engine_failures:
  "traverse StartTraverseIn [1] initial = Inl NullDeref \<and>
   traverse StartTraversePre [1] initial = Inl NullDeref \<and>
   traverse StartTraversePost [1] initial = Inl NullDeref \<and>
   traverse StartTraverseIn [1] (initial\<lparr>root := Insert (Insert Null 10) 5\<rparr>) = Inl DanglingReference \<and>
   traverse StartTraversePre [1, 1] (initial\<lparr>root := Insert (Insert Null 10) 5\<rparr>) = Inl DanglingReference \<and>
   traverse StartTraversePost [1] (initial\<lparr>root := Insert (Insert Null 10) 5\<rparr>) = Inl DanglingReference \<and>
   map_sum id (\<lambda>s. (mode s, visited_keys s))
     (traverse StartTraverseIn (replicate 5 1) (initial\<lparr>root := Insert Null 10\<rparr>)) = Inr (IDLE, [10])"
  by code_simp

text \<open>
  Claim C2. Deleting a key that a search tree holds removes exactly one node and leaves
  a search tree without that key and without duplicate keys. The tree changes only at
  the node that holds the key, wherever in the tree it is: without children it
  disappears, with one child that child takes its place, and with two children it gets
  the smallest key of its right subtree, which is the key of \<open>MinNode\<close> of that subtree,
  the end of its left spine, and that node is then removed from the right subtree, its
  right child taking its place.
\<close>

theorem delete_present_value:
  assumes "bst t" and "v \<in> keys t"
  shows "Suc (count (DeleteNode t v)) = count t \<and> bst (DeleteNode t v) \<and>
         keys (DeleteNode t v) = keys t - {v} \<and> distinct (inorder (DeleteNode t v)) \<and>
         (\<exists>p l a r. node_at t p = Node l a r \<and> n_value a = v) \<and>
         (\<forall>p l a r. node_at t p = Node l a r \<and> n_value a = v \<longrightarrow>
            (l = Null \<and> r = Null \<longrightarrow> DeleteNode t v = replace_at t p Null) \<and>
            (l = Null \<and> r \<noteq> Null \<longrightarrow> DeleteNode t v = replace_at t p r) \<and>
            (l \<noteq> Null \<and> r = Null \<longrightarrow> DeleteNode t v = replace_at t p l) \<and>
            (l \<noteq> Null \<and> r \<noteq> Null \<longrightarrow>
               n_value (dat (MinNode r)) = Min (keys r) \<and>
               DeleteNode t v =
                 replace_at t p (Node l (a\<lparr>n_value := Min (keys r)\<rparr>) (DeleteNode r (Min (keys r)))) \<and>
               (\<exists>q. set q \<subseteq> {L} \<and> node_at r q = MinNode r \<and> left (MinNode r) = Null \<and>
                    DeleteNode r (Min (keys r)) = replace_at r q (right (MinNode r))) \<and>
               Suc (count (DeleteNode r (Min (keys r)))) = count r \<and>
               Min (keys r) \<notin> keys (DeleteNode r (Min (keys r)))))"
proof -
  have pos: "0 < count u" if "k \<in> keys u" for k u using that by (cases u) auto
  have at: "(l = Null \<and> r = Null \<longrightarrow> DeleteNode t v = replace_at t p Null) \<and>
            (l = Null \<and> r \<noteq> Null \<longrightarrow> DeleteNode t v = replace_at t p r) \<and>
            (l \<noteq> Null \<and> r = Null \<longrightarrow> DeleteNode t v = replace_at t p l) \<and>
            (l \<noteq> Null \<and> r \<noteq> Null \<longrightarrow>
               n_value (dat (MinNode r)) = Min (keys r) \<and>
               DeleteNode t v =
                 replace_at t p (Node l (a\<lparr>n_value := Min (keys r)\<rparr>) (DeleteNode r (Min (keys r)))) \<and>
               (\<exists>q. set q \<subseteq> {L} \<and> node_at r q = MinNode r \<and> left (MinNode r) = Null \<and>
                    DeleteNode r (Min (keys r)) = replace_at r q (right (MinNode r))) \<and>
               Suc (count (DeleteNode r (Min (keys r)))) = count r \<and>
               Min (keys r) \<notin> keys (DeleteNode r (Min (keys r))))"
    if n: "node_at t p = Node l a r" and k: "n_value a = v" for p l a r
  proof -
    note d = DeleteNode_at [OF assms(1) n k]
    from assms(1) have "bst (node_at t p)" by (rule bst_node_at)
    with n have br: "bst r" by simp
    have c1: "DeleteNode t v = replace_at t p Null" if "l = Null" "r = Null"
      using d that k by simp
    have c2: "DeleteNode t v = replace_at t p r" if "l = Null" "r \<noteq> Null"
      using d that k by simp
    have c3: "DeleteNode t v = replace_at t p l" if "l \<noteq> Null" "r = Null"
      using d that k by simp
    have c4: "n_value (dat (MinNode r)) = Min (keys r) \<and>
               DeleteNode t v =
                 replace_at t p (Node l (a\<lparr>n_value := Min (keys r)\<rparr>) (DeleteNode r (Min (keys r)))) \<and>
               (\<exists>q. set q \<subseteq> {L} \<and> node_at r q = MinNode r \<and> left (MinNode r) = Null \<and>
                    DeleteNode r (Min (keys r)) = replace_at r q (right (MinNode r))) \<and>
               Suc (count (DeleteNode r (Min (keys r)))) = count r \<and>
               Min (keys r) \<notin> keys (DeleteNode r (Min (keys r)))"
      if ne: "l \<noteq> Null" "r \<noteq> Null"
    proof -
      from br ne have m: "n_value (dat (MinNode r)) = Min (keys r)" by (simp add: MinNode_key)
      from ne have "n_value (dat (MinNode r)) \<in> keys r" by (simp add: MinNode_in_keys)
      with m have mr: "Min (keys r) \<in> keys r" by simp
      from mr br have "count (DeleteNode r (Min (keys r))) = count r - 1"
        by (rule count_DeleteNode)
      with pos [OF mr] have "Suc (count (DeleteNode r (Min (keys r)))) = count r" by simp
      moreover from br have "Min (keys r) \<notin> keys (DeleteNode r (Min (keys r)))"
        by (simp add: keys_DeleteNode)
      moreover from ne m k
      have "DeleteNode (Node l a r) v = Node l (a\<lparr>n_value := Min (keys r)\<rparr>) (DeleteNode r (Min (keys r)))"
        by (simp add: Let_def)
      with d have "DeleteNode t v =
          replace_at t p (Node l (a\<lparr>n_value := Min (keys r)\<rparr>) (DeleteNode r (Min (keys r))))"
        by simp
      moreover note DeleteNode_successor [OF br ne(2)]
      ultimately show ?thesis using m by simp
    qed
    from c1 c2 c3 c4 show ?thesis by blast
  qed
  from assms have "count (DeleteNode t v) = count t - 1" by (simp add: count_DeleteNode)
  with pos [OF assms(2)] have "Suc (count (DeleteNode t v)) = count t" by simp
  moreover from assms have b: "bst (DeleteNode t v)" by (simp add: bst_DeleteNode)
  moreover from assms have "keys (DeleteNode t v) = keys t - {v}" by (simp add: keys_DeleteNode)
  moreover from b have "distinct (inorder (DeleteNode t v))" by (rule bst_distinct_inorder)
  moreover note key_has_node [OF assms(2)]
  ultimately show ?thesis using at by blast
qed

theorem delete_present_value_witness:
  "bst example_tree \<and> 30 \<in> keys example_tree \<and>
   node_at example_tree [L] = Node (CreateNode 20) (dat (CreateNode 30)) (CreateNode 40) \<and>
   n_value (dat (CreateNode 30)) = 30 \<and> CreateNode 20 \<noteq> Null \<and> CreateNode 40 \<noteq> Null \<and>
   Suc (count (DeleteNode example_tree 30)) = count example_tree \<and>
   bst (DeleteNode example_tree 30) \<and>
   keys (DeleteNode example_tree 30) = keys example_tree - {30} \<and>
   distinct (inorder (DeleteNode example_tree 30)) \<and>
   n_value (dat (MinNode (CreateNode 40))) = Min (keys (CreateNode 40)) \<and>
   DeleteNode example_tree 30 =
     replace_at example_tree [L]
       (Node (CreateNode 20) ((dat (CreateNode 30))\<lparr>n_value := Min (keys (CreateNode 40))\<rparr>)
          (DeleteNode (CreateNode 40) (Min (keys (CreateNode 40))))) \<and>
   replace_at example_tree [L]
       (Node (CreateNode 20) ((dat (CreateNode 30))\<lparr>n_value := Min (keys (CreateNode 40))\<rparr>)
          (DeleteNode (CreateNode 40) (Min (keys (CreateNode 40))))) =
     Node (Node (CreateNode 20) (dat (CreateNode 40)) Null) (dat (CreateNode 50)) (CreateNode 70)"
proof -
  have b: "bst example_tree" by (simp add: example_tree_def CreateNode_def)
  have k: "30 \<in> keys example_tree" by (simp add: example_tree_def CreateNode_def)
  have n: "node_at example_tree [L] = Node (CreateNode 20) (dat (CreateNode 30)) (CreateNode 40)"
    by (simp add: example_tree_def CreateNode_def)
  have v: "n_value (dat (CreateNode 30)) = 30" by (simp add: CreateNode_def)
  have ne: "CreateNode 20 \<noteq> Null" "CreateNode 40 \<noteq> Null" by (simp_all add: CreateNode_def)
  have e: "replace_at example_tree [L]
       (Node (CreateNode 20) ((dat (CreateNode 30))\<lparr>n_value := Min (keys (CreateNode 40))\<rparr>)
          (DeleteNode (CreateNode 40) (Min (keys (CreateNode 40))))) =
     Node (Node (CreateNode 20) (dat (CreateNode 40)) Null) (dat (CreateNode 50)) (CreateNode 70)"
    by (simp add: example_tree_def CreateNode_def)
  from delete_present_value [OF b k] b k n v ne e
  show ?thesis by blast
qed

text \<open>
  Claim C3. Inserting any finite sequence of integers, in order, into the empty tree gives
  a tree that satisfies the ordering invariant: at every node, every key of the left
  subtree is strictly smaller than the node's key and every key of the right subtree is
  strictly greater.
\<close>

theorem inserts_satisfy_bst_invariant:
  "bst (fold (\<lambda>v t. Insert t v) vs Null) \<and>
   (\<forall>p l a r. node_at (fold (\<lambda>v t. Insert t v) vs Null) p = Node l a r \<longrightarrow>
      (\<forall>k \<in> keys l. k < n_value a) \<and> (\<forall>k \<in> keys r. n_value a < k))"
proof -
  let ?t = "fold (\<lambda>v t. Insert t v) vs Null"
  have b: "bst ?t" by (rule bst_fold_Insert) simp
  have "(\<forall>k \<in> keys l. k < n_value a) \<and> (\<forall>k \<in> keys r. n_value a < k)"
    if "node_at ?t p = Node l a r" for p l a r
  proof -
    from b have "bst (node_at ?t p)" by (rule bst_node_at)
    with that show ?thesis by simp
  qed
  with b show ?thesis by blast
qed

theorem inserts_satisfy_bst_invariant_witness:
  "bst (fold (\<lambda>v t. Insert t v) [50, 30, 70, 20, 40] Null) \<and>
   node_at (fold (\<lambda>v t. Insert t v) [50, 30, 70, 20, 40] Null) [L] =
     Node (CreateNode 20) (dat (CreateNode 30)) (CreateNode 40) \<and>
   20 < n_value (dat (CreateNode 30)) \<and> n_value (dat (CreateNode 30)) < 40"
proof -
  have n: "node_at (fold (\<lambda>v t. Insert t v) [50, 30, 70, 20, 40] Null) [L] =
     Node (CreateNode 20) (dat (CreateNode 30)) (CreateNode 40)"
    by (simp add: CreateNode_def)
  from inserts_satisfy_bst_invariant [of "[50, 30, 70, 20, 40]"] n
  show ?thesis by (simp add: CreateNode_def)
qed

text \<open>
  Claim C4. The delete animation's phases advance only on their own conditions: seven
  colour toggles before the drop, a position below the screen (beyond 900) before the
  fade, and the commit only after all three. In the code the step broadcaster at the
  top of \<open>UpdateDelete\<close> also advances the same index every half second. At 64 frames a
  second, for the single node 10: the drop begins at frame 66 after 4 toggles, the fade
  begins at frame 99 with the node at height 875/16, and frame 121 commits the deletion.
\<close>

theorem delete_phases_cut_short:
  "map_sum id (\<lambda>s. (mode s, algoStepIndex s, delFlashCount s, n_y (dat (root s))))
     (frames (replicate 66 (1 / 64)) delete_example) = Inr (DELETING, 2, 4, - 1525 / 16) \<and>
   map_sum id (\<lambda>s. (mode s, algoStepIndex s, delFlashCount s, n_y (dat (root s))))
     (frames (replicate 99 (1 / 64)) delete_example) = Inr (DELETING, 3, 4, 875 / 16) \<and>
   map_sum id (\<lambda>s. (mode s, root s, delFlashCount s))
     (frames (replicate 121 (1 / 64)) delete_example) = Inr (IDLE, Null, 4)"
  by code_simp

text \<open>
  Claim C5. \<open>StartSearchAnimation\<close> puts the cursor on the root with \<open>found\<close> false, and
  each step of the search comes only after a dwell of 0.6 seconds. In the code the dwell
  timer is the static \<open>moveTimer\<close> of \<open>UpdateSearch\<close>, which \<open>StartSearchAnimation\<close> does
  not reset. In a fresh program a search waits: after one frame, and after 38 frames of
  1/64 second, the cursor is still on the root, the timer at 19/32. When SEARCH is
  pressed again at that moment, the new search, its cursor on the root, moves to the left
  child in its first frame, 1/64 second after it started.
\<close>

theorem search_dwell_not_reset:
  "map_sum id (\<lambda>s. (mode s, current s, moveTimer s)) interrupted_search =
     Inr (SEARCHING, Some [], 19 / 32) \<and>
   map_sum id (\<lambda>s. (mode s, current s, moveTimer s)) restarted_search =
     Inr (SEARCHING, Some [L], 0) \<and>
   map_sum id (\<lambda>s. (mode s, current s, moveTimer s))
     (frames [1 / 64] (StartSearchAnimation example_state)) = Inr (SEARCHING, Some [], 1 / 64)"
  by code_simp

text \<open>
  Claim C6. Inserting 50, 30, 70, 20, 40 into the empty tree gives the tree with root 50,
  left child 30 (children 20 and 40) and right child 70; its in-order sequence is
  20, 30, 40, 50, 70 and its pre-order sequence is 50, 30, 20, 40, 70. Deleting 30 gives
  the node the key 40, the minimum of its right subtree, and removes the leaf 40: root
  50, left child 40 with left child 20, right child 70. The program after the five
  inserts holds that tree, laid out, and an empty frame vector without capacity. There
  the traversal engine does not mark the nodes in these orders: the in-order traversal
  in its first step, and the pre-order traversal in its second, push a child frame,
  the frame vector reallocates, and the assignment to \<^verbatim>\<open>frame.state\<close> that follows writes
  through the invalidated reference.
\<close>

theorem example_insert_traverse_delete:
  "example_tree =
     Node (Node (CreateNode 20) (dat (CreateNode 30)) (CreateNode 40)) (dat (CreateNode 50))
          (CreateNode 70) \<and>
   inorder example_tree = [20, 30, 40, 50, 70] \<and>
   preorder example_tree = [50, 30, 20, 40, 70] \<and>
   map_nodes (\<lambda>a. a\<lparr>n_tx := 350, n_ty := 80\<rparr>) (root example_state) = example_tree \<and>
   travStack example_state = [] \<and> travCapacity example_state = 0 \<and>
   traverse StartTraverseIn [1] example_state = Inl DanglingReference \<and>
   traverse StartTraversePre [1, 1] example_state = Inl DanglingReference \<and>
   MinNode (right (left example_tree)) = CreateNode 40 \<and>
   DeleteNode example_tree 30 =
     Node (Node (CreateNode 20) (dat (CreateNode 40)) Null) (dat (CreateNode 50)) (CreateNode 70)"
  by code_simp



text \<open>
  Claim C8. Inserting a key that a search tree already holds returns the tree unchanged:
  no node is added and no field of a node is replaced. Inserting the same key twice
  gives the same tree as inserting it once.
\<close>

theorem duplicate_insert_is_noop:
  "bst t \<Longrightarrow> (v \<in> keys t \<longrightarrow> Insert t v = t) \<and> Insert (Insert t v) v = Insert t v"
  by (simp add: Insert_present Insert_twice)

theorem duplicate_insert_is_noop_witness:
  "bst (Insert (Insert Null 50) 30) \<and> 30 \<in> keys (Insert (Insert Null 50) 30) \<and>
   Insert (Insert (Insert Null 50) 30) 30 = Insert (Insert Null 50) 30 \<and>
   Insert (Insert (Insert (Insert Null 50) 30) 30) 30 = Insert (Insert (Insert Null 50) 30) 30"
proof -
  have b: "bst (Insert (Insert Null 50) 30)" by (simp add: CreateNode_def)
  have k: "30 \<in> keys (Insert (Insert Null 50) 30)" by (simp add: CreateNode_def)
  from duplicate_insert_is_noop [OF b, of 30] b k show ?thesis by blast
qed

text \<open>
  Claim C9. The full-tree walks of \<open>AnimateNodes\<close> and \<open>ResetTreeColors\<close> update every
  node and keep every access to their helper stack within bounds, for every tree. The
  stack is an array of 100 pointers; on the search tree \<open>deep_tree\<close> both walks write its
  entry 100.
\<close>

theorem fixed_stack_overflow:
  "bst deep_tree \<and> count deep_tree = 201 \<and>
   AnimateNodes (1 / 64) (initial\<lparr>root := deep_tree\<rparr>) = Inl StackOutOfBounds \<and>
   ResetTreeColors (initial\<lparr>root := deep_tree\<rparr>) = Inl StackOutOfBounds"
proof (intro conjI)
  show "bst deep_tree" by (simp add: deep_tree_def bst_fold_Insert)
  show "count deep_tree = 201" by code_simp
  show "AnimateNodes (1 / 64) (initial\<lparr>root := deep_tree\<rparr>) = Inl StackOutOfBounds"
    by code_simp
  show "ResetTreeColors (initial\<lparr>root := deep_tree\<rparr>) = Inl StackOutOfBounds"
    by code_simp
qed

text \<open>
  Claim C10. The commit of the delete animation runs \<open>DeleteNode\<close> with the input value
  of the commit frame, whatever node the animation has located, and the arrow keys change
  the input value, and nothing else, in any frame: the key that leaves the tree is the
  current input, which can differ from the key of the node that was flashed, dropped and
  faded.
\<close>

theorem commit_deletes_current_input:
  assumes "delNode s = Some p" and "algoStepIndex (advance_algo dt s) = 4"
  shows "(\<exists>s'. UpdateDelete dt s = Inr s' \<and> mode s' = IDLE \<and>
            root s' = SetPositions (DeleteNode (root s) (inputValue s)) TREE_START_X TREE_START_Y 200 \<and>
            keys (root s') = keys (DeleteNode (root s) (inputValue s))) \<and>
         (inputValue s \<noteq> 2147483647 \<longrightarrow> KeyUp s = Inr (s\<lparr>inputValue := inputValue s + 1\<rparr>)) \<and>
         (inputValue s \<noteq> - 2147483648 \<longrightarrow> KeyDown s = Inr (s\<lparr>inputValue := inputValue s - 1\<rparr>))"
  using assms by (simp add: UpdateDelete_def Let_def keys_SetPositions KeyUp_def KeyDown_def)

theorem commit_deletes_current_input_witness:
  "retarget_run = Inr retarget_state \<and>
   delNode retarget_state = Some [] \<and>
   algoStepIndex (advance_algo (1 / 4) retarget_state) = 4 \<and>
   keys (root retarget_state) = {10, 11} \<and>
   n_value (dat (node_at (root retarget_state) [])) = 10 \<and>
   inputValue retarget_state = 11 \<and>
   (\<exists>s'. UpdateDelete (1 / 4) retarget_state = Inr s' \<and> mode s' = IDLE \<and> keys (root s') = {10})"
proof -
  have d: "delNode retarget_state = Some []" by code_simp
  have a: "algoStepIndex (advance_algo (1 / 4) retarget_state) = 4" by code_simp
  have k: "keys (root retarget_state) = {10, 11}" by code_simp
  have v: "n_value (dat (node_at (root retarget_state) [])) = 10" by code_simp
  have i: "inputValue retarget_state = 11" by code_simp
  have e: "keys (DeleteNode (root retarget_state) (inputValue retarget_state)) = {10}"
    by code_simp
  from commit_deletes_current_input [OF d a] e
  have "\<exists>s'. UpdateDelete (1 / 4) retarget_state = Inr s' \<and> mode s' = IDLE \<and> keys (root s') = {10}"
    by auto
  with retarget_run_state d a k v i show ?thesis by blast
qed

end
